theory Spec2Isabelle
  imports Complex_Main "HOL-Library.Log_Nat"
begin

section \<open>The lottery simulation worker and its fallback, embedded in HOL\<close>

text \<open>
  The development follows the simulation worker (\<^verbatim>\<open>generateUniqueNumbers\<close>,
  \<^verbatim>\<open>calculateChecksum\<close>, \<^verbatim>\<open>heavyComputation\<close>, \<^verbatim>\<open>runSimulation\<close>) and the
  in-page fallback (\<^verbatim>\<open>runFallbackSimulation\<close>) function by function.

  Conventions of the embedding:
  \<^item> \<^verbatim>\<open>Math.random()\<close> reads an ambient stream. The stream is a parameter
    \<open>rng :: nat \<Rightarrow> rat\<close>, and the number of values consumed so far is threaded through
    the code as explicit state. A stream is \<open>valid_rng\<close> when every value lies in \<open>[0, 1)\<close>.
  \<^item> JavaScript numbers are doubles. A finite double is the rational it denotes; the other
    values that the code can produce (\<^verbatim>\<open>undefined\<close>, \<^verbatim>\<open>NaN\<close>, the infinities) are
    constructors of \<open>jsval\<close>, and negative zero is identified with zero. The quotients and
    products from which the code derives its rounded statistics (\<open>js_div\<close>, \<open>js_times\<close>)
    are rounded as the machine rounds them, to the nearest number with a significand of 53
    bits, a tie going to the even significand (\<open>round_double\<close>); a decimal literal such as
    \<^verbatim>\<open>0.85\<close> is the double nearest to it. The exponent range is not bounded: overflow and
    subnormal numbers, which need operands beyond \<open>2 ^ 53\<close>, are not modelled. Counters and
    drawn numbers are integers and exact. The product under \<^verbatim>\<open>Math.floor\<close> in a sample
    and the percentage of a progress message are recorded as the exact product and
    quotient; the code works with the doubles obtained from them by rounding.
  \<^item> A \<^verbatim>\<open>Set\<close> is the list of its members in insertion order, a \<^verbatim>\<open>Map\<close> the list of
    its entries in insertion order, as JavaScript iterates them.
  \<^item> A \<^verbatim>\<open>while\<close> loop that need not terminate is a \<^theory_text>\<open>partial_function\<close> into
    \<open>option\<close>: \<open>None\<close> means that the loop never returns.
  \<^item> The wall-clock fields (\<^verbatim>\<open>timestamp\<close>, \<^verbatim>\<open>processingTimeMs\<close>) are left out of the
    records: no statement below depends on them.
\<close>

subsection \<open>JavaScript values and containers\<close>

type_synonym random_source = "nat \<Rightarrow> rat"

definition valid_rng :: "random_source \<Rightarrow> bool" where
  "valid_rng rng = (\<forall>i. 0 \<le> rng i \<and> rng i < 1)"

datatype jsval = Undefined | NaN | Infinity | NegInfinity | Num rat

text \<open>
  Rounding to a double. \<open>round_half_even\<close> is the nearest integer, a tie going to the even
  one. \<open>binade x\<close> is the exponent \<open>e\<close> with \<open>2 powi e \<le> \<bar>x\<bar> < 2 powi (e + 1)\<close>, computed
  from the bit lengths of numerator and denominator. \<open>round_double x\<close> is the nearest
  multiple of \<open>2 powi (e - 52)\<close>, the spacing of the doubles of that exponent.
\<close>

definition round_half_even :: "rat \<Rightarrow> int" where
  "round_half_even q =
     (let n = \<lfloor>q\<rfloor>; r = q - of_int n
      in if r < 1 / 2 then n else if 1 / 2 < r then n + 1 else if even n then n else n + 1)"

definition binade :: "rat \<Rightarrow> int" where
  "binade x =
     (let (p, q) = quotient_of \<bar>x\<bar>; k = bitlen p - bitlen q
      in if 2 powi k \<le> \<bar>x\<bar> then k else k - 1)"

definition round_double :: "rat \<Rightarrow> rat" where
  "round_double x =
     (if x = 0 then 0
      else let ulp = 2 powi (binade x - 52) in of_int (round_half_even (x / ulp)) * ulp)"

text \<open>The literals \<^verbatim>\<open>0.85\<close> and \<^verbatim>\<open>0.70\<close>.\<close>

definition double_0_85 :: rat where
  "double_0_85 = round_double (85 / 100)"

definition double_0_70 :: rat where
  "double_0_70 = round_double (70 / 100)"

text \<open>\<^verbatim>\<open>a / b\<close> on finite operands; the divisor zero is the positive zero.\<close>

definition js_div :: "rat \<Rightarrow> rat \<Rightarrow> jsval" where
  "js_div a b =
     (if b = 0 then (if a = 0 then NaN else if 0 < a then Infinity else NegInfinity)
      else Num (round_double (a / b)))"

text \<open>\<^verbatim>\<open>v * c\<close> for a finite double \<open>c\<close>.\<close>

fun js_times :: "jsval \<Rightarrow> rat \<Rightarrow> jsval" where
  "js_times (Num a) c = Num (round_double (a * c))"
| "js_times Infinity c = (if 0 < c then Infinity else if c < 0 then NegInfinity else NaN)"
| "js_times NegInfinity c = (if 0 < c then NegInfinity else if c < 0 then Infinity else NaN)"
| "js_times NaN c = NaN"
| "js_times Undefined c = NaN"

text \<open>\<^verbatim>\<open>Math.round\<close>: the nearest integer, a tie going up; exact on the value of the double.\<close>

fun Math_round :: "jsval \<Rightarrow> jsval" where
  "Math_round (Num a) = Num (of_int \<lfloor>a + 1 / 2\<rfloor>)"
| "Math_round Infinity = Infinity"
| "Math_round NegInfinity = NegInfinity"
| "Math_round NaN = NaN"
| "Math_round Undefined = NaN"

text \<open>\<^verbatim>\<open>xs[i]\<close>: \<open>None\<close> is \<^verbatim>\<open>undefined\<close>.\<close>

definition array_get :: "'a list \<Rightarrow> nat \<Rightarrow> 'a option" where
  "array_get xs i = (if i < length xs then Some (xs ! i) else None)"

text \<open>\<^verbatim>\<open>a || b\<close> where \<open>a\<close> is a number or \<^verbatim>\<open>undefined\<close>: zero is falsy as well.\<close>

definition js_or :: "int option \<Rightarrow> jsval \<Rightarrow> jsval" where
  "js_or a b = (case a of None \<Rightarrow> b | Some v \<Rightarrow> if v = 0 then b else Num (of_int v))"

text \<open>\<^verbatim>\<open>xs.slice(-n)\<close>: the last \<open>n\<close> elements.\<close>

definition slice_last :: "nat \<Rightarrow> 'a list \<Rightarrow> 'a list" where
  "slice_last n xs = drop (length xs - n) xs"

text \<open>\<^verbatim>\<open>Set.prototype.add\<close>: a new member goes to the end, a present one changes nothing.\<close>

definition Set_add :: "int list \<Rightarrow> int \<Rightarrow> int list" where
  "Set_add numbers v = (if v \<in> set numbers then numbers else numbers @ [v])"

text \<open>\<^verbatim>\<open>Map.prototype.get\<close> and \<^verbatim>\<open>Map.prototype.set\<close>: a present key keeps its place.\<close>

fun Map_get :: "(int \<times> nat) list \<Rightarrow> int \<Rightarrow> nat option" where
  "Map_get [] k = None"
| "Map_get ((k', v) # m) k = (if k' = k then Some v else Map_get m k)"

fun Map_set :: "(int \<times> nat) list \<Rightarrow> int \<Rightarrow> nat \<Rightarrow> (int \<times> nat) list" where
  "Map_set [] k v = [(k, v)]"
| "Map_set ((k', v') # m) k v = (if k' = k then (k, v) # m else (k', v') # Map_set m k v)"

text \<open>\<^verbatim>\<open>(m.get(k) || 0)\<close>.\<close>

definition get_or_0 :: "(int \<times> nat) list \<Rightarrow> int \<Rightarrow> nat" where
  "get_or_0 m k = (case Map_get m k of None \<Rightarrow> 0 | Some c \<Rightarrow> c)"

text \<open>
  \<^verbatim>\<open>Array.from(m.entries()).sort((a, b) => b[1] - a[1])\<close>: by descending count; the sort
  of the language is stable, so entries of equal count stay in insertion order.
\<close>

definition sort_by_count_desc :: "(int \<times> nat) list \<Rightarrow> (int \<times> nat) list" where
  "sort_by_count_desc m = sort_key (\<lambda>e. - int (snd e)) m"

subsection \<open>Data of the worker\<close>

record RangeSpec =
  range_min :: int
  range_max :: int
  range_count :: int

record payload =
  iterations :: int
  mainNumberRange :: RangeSpec
  bonusNumberRange :: RangeSpec

record SimulationResult =
  result_id :: int
  mainNumbers :: "int list"
  bonusNumber :: int
  checksum :: int

record RankedCombination =
  rank :: string
  combo_mainNumbers :: "int list"
  combo_bonusNumber :: jsval
  frequencyScore :: jsval

record SimulationStatistics =
  totalSimulations :: int
  mostFrequentMain :: "int list"
  mostFrequentBonus :: jsval
  averageSum :: jsval
  optimizedCombinations :: "RankedCombination list option"

datatype message =
    PROGRESS rat
  | COMPLETE "SimulationResult list" SimulationStatistics
  | ERROR string

record worker_state =
  results :: "SimulationResult list"
  mainFrequency :: "(int \<times> nat) list"
  bonusFrequency :: "(int \<times> nat) list"
  totalSum :: int
  posted :: "message list"
  rng_pos :: nat

definition initial_state :: worker_state where
  "initial_state =
     \<lparr>results = [], mainFrequency = [], bonusFrequency = [], totalSum = 0,
      posted = [], rng_pos = 0\<rparr>"

subsection \<open>\<^verbatim>\<open>generateUniqueNumbers\<close>\<close>

text \<open>
  \<^verbatim>\<open>while (numbers.size < count) numbers.add(Math.floor(Math.random() * (max - min + 1)) + min)\<close>.
  The loop has no bound of its own.
\<close>

partial_function (option) generateUniqueNumbers_loop ::
  "random_source \<Rightarrow> int \<Rightarrow> int \<Rightarrow> int \<Rightarrow> int list \<Rightarrow> nat \<Rightarrow> (int list \<times> nat) option"
where
  "generateUniqueNumbers_loop rng cnt mn mx numbers pos =
     (if int (length numbers) < cnt
      then generateUniqueNumbers_loop rng cnt mn mx
             (Set_add numbers (\<lfloor>rng pos * of_int (mx - mn + 1)\<rfloor> + mn)) (Suc pos)
      else Some (numbers, pos))"

declare generateUniqueNumbers_loop.simps [code]

definition generateUniqueNumbers ::
  "random_source \<Rightarrow> int \<Rightarrow> int \<Rightarrow> int \<Rightarrow> nat \<Rightarrow> (int list \<times> nat) option"
where
  "generateUniqueNumbers rng cnt mn mx pos =
     (case generateUniqueNumbers_loop rng cnt mn mx [] pos of
        None \<Rightarrow> None
      | Some (numbers, pos') \<Rightarrow> Some (sort numbers, pos'))"

subsection \<open>\<^verbatim>\<open>calculateChecksum\<close>\<close>

definition calculateChecksum :: "int list \<Rightarrow> int \<Rightarrow> int" where
  "calculateChecksum main bonus = sum_list main * bonus"

subsection \<open>\<^verbatim>\<open>heavyComputation\<close>\<close>

text \<open>
  Trial division of a random target. The inner loop is
  \<^verbatim>\<open>while (n % d === 0) { factors.push(d); n /= d; }\<close>, the outer one
  \<^verbatim>\<open>for (let d = 2; d * d <= n; d++)\<close>. The divisor starts at 2 and the inner loop is
  entered with \<open>4 \<le> n\<close> only; the conditions \<open>2 \<le> d\<close> and \<open>0 < n\<close> are written into the
  guards so that the recursion is total on all of \<open>int\<close>.
\<close>

function divide_out :: "int \<Rightarrow> int \<Rightarrow> int list \<Rightarrow> int \<times> int list" where
  "divide_out n d factors =
     (if 2 \<le> d \<and> 0 < n \<and> n mod d = 0
      then divide_out (n div d) d (factors @ [d])
      else (n, factors))"
  by pat_completeness auto
termination
proof (relation "measure (\<lambda>(n, d, factors). nat n)")
  show "wf (measure (\<lambda>(n, d, factors). nat n))"
    by simp
next
  fix n d :: int and factors :: "int list"
  assume "2 \<le> d \<and> 0 < n \<and> n mod d = 0"
  then have "n div d < n"
    by (simp add: int_div_less_self)
  moreover have "0 \<le> n div d"
    using \<open>2 \<le> d \<and> 0 < n \<and> n mod d = 0\<close> by (simp add: pos_imp_zdiv_nonneg_iff)
  ultimately show "((n div d, d, factors @ [d]), n, d, factors) \<in> measure (\<lambda>(n, d, factors). nat n)"
    by simp
qed

declare divide_out.simps [simp del]

function factor_loop :: "int \<Rightarrow> int \<Rightarrow> int list \<Rightarrow> int \<times> int list" where
  "factor_loop d n factors =
     (if 2 \<le> d \<and> d * d \<le> n
      then (case divide_out n d factors of (n', factors') \<Rightarrow> factor_loop (d + 1) n' factors')
      else (n, factors))"
  by pat_completeness auto
termination
proof (relation "measure (\<lambda>(d, n, factors). nat (n + 1 - d))")
  show "wf (measure (\<lambda>(d, n, factors). nat (n + 1 - d)))"
    by simp
next
  fix d n n' :: int and factors factors' :: "int list"
  assume guard: "2 \<le> d \<and> d * d \<le> n" and split: "(n', factors') = divide_out n d factors"
  have le: "fst (divide_out m e fs) \<le> m" for m e :: int and fs :: "int list"
  proof (induction m e fs rule: divide_out.induct)
    case (1 m e fs)
    show ?case
    proof (cases "2 \<le> e \<and> 0 < m \<and> m mod e = 0")
      case True
      then have "m div e \<le> m"
        by (simp add: int_div_less_self less_imp_le)
      moreover from True have "divide_out m e fs = divide_out (m div e) e (fs @ [e])"
        by (subst divide_out.simps) simp
      ultimately show ?thesis
        using True "1.IH" by simp
    next
      case False
      then have "divide_out m e fs = (m, fs)"
        by (subst divide_out.simps) auto
      then show ?thesis
        by simp
    qed
  qed
  from le [of n d factors] split have "n' \<le> n"
    by (metis fst_conv)
  moreover from guard have "d \<le> d * d"
    by (simp add: mult_le_cancel_left1 self_le_power)
  with guard have "d \<le> n"
    by linarith
  ultimately show "((d + 1, n', factors'), d, n, factors) \<in> measure (\<lambda>(d, n, factors). nat (n + 1 - d))"
    using guard by simp
qed

declare factor_loop.simps [simp del]

text \<open>
  The function draws one random number, factorises the target and drops the factors: its
  only effect is on the random stream. The result is the new stream position.
\<close>

definition heavyComputation :: "random_source \<Rightarrow> nat \<Rightarrow> nat" where
  "heavyComputation rng pos =
     (let target = \<lfloor>rng pos * 10000\<rfloor> + 1000;
          (n, factors) = factor_loop 2 target [];
          factors = (if 1 < n then factors @ [n] else factors)
      in Suc pos)"

subsection \<open>\<^verbatim>\<open>runSimulation\<close>: one trial\<close>

text \<open>\<^verbatim>\<open>mainNumbers.forEach(n => mainFrequency.set(n, (mainFrequency.get(n) || 0) + 1))\<close>.\<close>

definition record_main :: "(int \<times> nat) list \<Rightarrow> int list \<Rightarrow> (int \<times> nat) list" where
  "record_main mf ns = fold (\<lambda>n f. Map_set f n (get_or_0 f n + 1)) ns mf"

text \<open>
  \<^verbatim>\<open>(i + 1) % Math.ceil(iterations / 10) === 0\<close>. Inside the loop both operands are
  positive, where \<^verbatim>\<open>%\<close> and \<open>mod\<close> agree; a zero divisor would give \<^verbatim>\<open>NaN\<close>, which is
  not zero.
\<close>

definition progress_due :: "int \<Rightarrow> int \<Rightarrow> bool" where
  "progress_due i its =
     (let block = \<lceil>of_int its / (10 :: rat)\<rceil> in block \<noteq> 0 \<and> (i + 1) mod block = 0)"

text \<open>
  The body of the \<^verbatim>\<open>for\<close> loop at index \<open>i\<close>. It returns \<open>None\<close> when
  \<^verbatim>\<open>generateUniqueNumbers\<close> never returns; nothing of the trial has been recorded or
  posted at that point.
\<close>

definition trial :: "random_source \<Rightarrow> payload \<Rightarrow> int \<Rightarrow> worker_state \<Rightarrow> worker_state option" where
  "trial rng p i s =
     (let pos1 = heavyComputation rng (rng_pos s) in
      case generateUniqueNumbers rng (range_count (mainNumberRange p))
             (range_min (mainNumberRange p)) (range_max (mainNumberRange p)) pos1 of
        None \<Rightarrow> None
      | Some (main, pos2) \<Rightarrow>
          let bonus = \<lfloor>rng pos2 * of_int (range_max (bonusNumberRange p)
                         - range_min (bonusNumberRange p) + 1)\<rfloor> + range_min (bonusNumberRange p)
          in Some
               \<lparr>results = results s @
                  [\<lparr>result_id = i + 1, mainNumbers = main, bonusNumber = bonus,
                    checksum = calculateChecksum main bonus\<rparr>],
                mainFrequency = record_main (mainFrequency s) main,
                bonusFrequency =
                  Map_set (bonusFrequency s) bonus (get_or_0 (bonusFrequency s) bonus + 1),
                totalSum = totalSum s + sum_list main,
                posted =
                  (if progress_due i (iterations p)
                   then posted s @ [PROGRESS (of_int (i + 1) / of_int (iterations p) * 100)]
                   else posted s),
                rng_pos = Suc pos2\<rparr>)"

subsection \<open>\<^verbatim>\<open>runSimulation\<close>: the loop\<close>

text \<open>
  A run either returns, or it hangs in the sampling loop of some trial. In both cases the
  value carried is what the run had done up to that point.
\<close>

datatype 'a run = is_Returned: Returned (reached: 'a) | Diverged (reached: 'a)

function simulation_loop ::
  "random_source \<Rightarrow> payload \<Rightarrow> int \<Rightarrow> worker_state \<Rightarrow> worker_state run"
where
  "simulation_loop rng p i s =
     (if i < iterations p
      then (case trial rng p i s of
              None \<Rightarrow> Diverged s
            | Some s' \<Rightarrow> simulation_loop rng p (i + 1) s')
      else Returned s)"
  by pat_completeness auto
termination
  by (relation "measure (\<lambda>(rng, p, i, s). nat (iterations p - i))") auto

declare simulation_loop.simps [simp del]

subsection \<open>\<^verbatim>\<open>runSimulation\<close>: the statistics\<close>

text \<open>
  \<open>sortedMain\<close> and \<open>sortedBonus\<close> as they are first computed. The statement
  \<^verbatim>\<open>const topMain = sortedMain.sort((a, b) => a - b)\<close> sorts the array of \<open>sortedMain\<close>
  in place and returns that same array: every later read of \<^verbatim>\<open>sortedMain\<close> reads
  \<open>topMain\<close>.
\<close>

definition sortedMain :: "worker_state \<Rightarrow> int list" where
  "sortedMain s = map fst (take 6 (sort_by_count_desc (mainFrequency s)))"

definition sortedBonus :: "worker_state \<Rightarrow> int list" where
  "sortedBonus s = map fst (sort_by_count_desc (bonusFrequency s))"

definition topMain :: "worker_state \<Rightarrow> int list" where
  "topMain s = sort (sortedMain s)"

text \<open>
  \<^verbatim>\<open>(mainFrequency.get(sortedMain[0]) || 0) / iterations * 100\<close>, read after the sort in
  place.
\<close>

definition score_frequency :: "worker_state \<Rightarrow> nat" where
  "score_frequency s =
     (case array_get (topMain s) 0 of None \<Rightarrow> 0 | Some n \<Rightarrow> get_or_0 (mainFrequency s) n)"

definition score_percent :: "payload \<Rightarrow> worker_state \<Rightarrow> jsval" where
  "score_percent p s = js_times (js_div (of_nat (score_frequency s)) (of_int (iterations p))) 100"

definition top3Combinations :: "payload \<Rightarrow> worker_state \<Rightarrow> RankedCombination list" where
  "top3Combinations p s =
     [\<lparr>rank = ''Primary Result'', combo_mainNumbers = topMain s,
       combo_bonusNumber = js_or (array_get (sortedBonus s) 0) (Num 1),
       frequencyScore = Math_round (score_percent p s)\<rparr>,
      \<lparr>rank = ''Secondary Result'', combo_mainNumbers = topMain s,
       combo_bonusNumber =
         js_or (array_get (sortedBonus s) 1)
           (case array_get (sortedBonus s) 0 of
              None \<Rightarrow> NaN
            | Some b \<Rightarrow> if b = 12 then Num 1 else Num (of_int (b + 1))),
       frequencyScore = Math_round (js_times (score_percent p s) (double_0_85))\<rparr>,
      \<lparr>rank = ''Tertiary Result'', combo_mainNumbers = topMain s,
       combo_bonusNumber =
         js_or (array_get (sortedBonus s) 2)
           (case array_get (sortedBonus s) 0 of
              None \<Rightarrow> NaN
            | Some b \<Rightarrow> if b = 11 then Num 1 else Num (of_int (b + 2))),
       frequencyScore = Math_round (js_times (score_percent p s) (double_0_70))\<rparr>]"

definition statistics :: "payload \<Rightarrow> worker_state \<Rightarrow> SimulationStatistics" where
  "statistics p s =
     \<lparr>totalSimulations = iterations p,
      mostFrequentMain = topMain s,
      mostFrequentBonus =
        (case array_get (sortedBonus s) 0 of None \<Rightarrow> Undefined | Some b \<Rightarrow> Num (of_int b)),
      averageSum = Math_round (js_div (of_int (totalSum s)) (of_int (iterations p))),
      optimizedCombinations = Some (top3Combinations p s)\<rparr>"

text \<open>
  The whole call on the payload of a \<^verbatim>\<open>SIMULATE\<close> message, on a host that raises no
  exception while the \<^verbatim>\<open>try\<close> block runs: the messages posted, and whether the call
  returned. The call with its \<^verbatim>\<open>catch\<close> clause, on any host, is \<open>runSimulation_host\<close>
  below.
\<close>

definition runSimulation :: "random_source \<Rightarrow> payload \<Rightarrow> message list run" where
  "runSimulation rng p =
     (case simulation_loop rng p 0 initial_state of
        Diverged s \<Rightarrow> Diverged (posted s)
      | Returned s \<Rightarrow>
          Returned (posted s @ [COMPLETE (slice_last 50 (results s)) (statistics p s)]))"

subsection \<open>\<^verbatim>\<open>runSimulation\<close>: the \<^verbatim>\<open>try\<close> block and its \<^verbatim>\<open>catch\<close> clause\<close>

text \<open>
  The \<^verbatim>\<open>try\<close> block contains no \<^verbatim>\<open>throw\<close> statement. What its \<^verbatim>\<open>catch\<close> clause can
  receive is an exception that the engine raises in one of the statements of the block
  (the capacity of a \<^verbatim>\<open>Set\<close>, a \<^verbatim>\<open>Map\<close> or an array, memory). Where that happens is
  not decided by the source; a \<open>host\<close> says it:
  \<^item> \<open>sampling_fault h i\<close>: in trial \<open>i\<close>, before \<^verbatim>\<open>generateUniqueNumbers\<close> has returned
    (in \<^verbatim>\<open>heavyComputation\<close> or in \<^verbatim>\<open>numbers.add\<close>);
  \<^item> \<open>recording_fault h i\<close>: in trial \<open>i\<close>, after \<^verbatim>\<open>generateUniqueNumbers\<close> has returned
    and before the progress message of the trial, the last statement of the loop body, is
    posted;
  \<^item> \<open>final_fault h\<close>: after the loop, before \<^verbatim>\<open>COMPLETE\<close> is posted.

  The \<^verbatim>\<open>catch\<close> clause posts
  \<^verbatim>\<open>error instanceof Error ? error.message : 'Simulation failed'\<close> and nothing else, so of
  the state at the moment of the exception only the messages already posted matter; they
  are those of the state before the trial.
\<close>

datatype thrown = Error_instance string | Other_value

record host =
  sampling_fault :: "int \<Rightarrow> thrown option"
  recording_fault :: "int \<Rightarrow> thrown option"
  final_fault :: "thrown option"

definition no_faults :: host where
  "no_faults = \<lparr>sampling_fault = (\<lambda>i. None), recording_fault = (\<lambda>i. None), final_fault = None\<rparr>"

definition catch_message :: "thrown \<Rightarrow> string" where
  "catch_message e = (case e of Error_instance m \<Rightarrow> m | Other_value \<Rightarrow> ''Simulation failed'')"

datatype loop_outcome =
    Loop_done (outcome_state: worker_state)
  | Loop_threw thrown (outcome_state: worker_state)
  | Loop_hung (outcome_state: worker_state)

function try_loop ::
  "host \<Rightarrow> random_source \<Rightarrow> payload \<Rightarrow> int \<Rightarrow> worker_state \<Rightarrow> loop_outcome"
where
  "try_loop h rng p i s =
     (if i < iterations p
      then (case sampling_fault h i of
              Some e \<Rightarrow> Loop_threw e s
            | None \<Rightarrow>
                (case trial rng p i s of
                   None \<Rightarrow> Loop_hung s
                 | Some s' \<Rightarrow>
                     (case recording_fault h i of
                        Some e \<Rightarrow> Loop_threw e s
                      | None \<Rightarrow> try_loop h rng p (i + 1) s')))
      else Loop_done s)"
  by pat_completeness auto
termination
  by (relation "measure (\<lambda>(h, rng, p, i, s). nat (iterations p - i))") auto

declare try_loop.simps [simp del]

definition runSimulation_host :: "host \<Rightarrow> random_source \<Rightarrow> payload \<Rightarrow> message list run" where
  "runSimulation_host h rng p =
     (case try_loop h rng p 0 initial_state of
        Loop_hung s \<Rightarrow> Diverged (posted s)
      | Loop_threw e s \<Rightarrow> Returned (posted s @ [ERROR (catch_message e)])
      | Loop_done s \<Rightarrow>
          (case final_fault h of
             Some e \<Rightarrow> Returned (posted s @ [ERROR (catch_message e)])
           | None \<Rightarrow>
               Returned (posted s @ [COMPLETE (slice_last 50 (results s)) (statistics p s)])))"

subsection \<open>\<^verbatim>\<open>runFallbackSimulation\<close>\<close>

record fallback_state =
  fb_results :: "SimulationResult list"
  processed :: int
  progress :: jsval
  fb_pos :: nat

text \<open>
  \<^verbatim>\<open>while (mainNumbers.length < 6) { const num = Math.floor(Math.random() * 31) + 1;
  if (!mainNumbers.includes(num)) mainNumbers.push(num); }\<close>
\<close>

partial_function (option) fallback_pick ::
  "random_source \<Rightarrow> int list \<Rightarrow> nat \<Rightarrow> (int list \<times> nat) option"
where
  "fallback_pick rng main pos =
     (if length main < 6
      then (let num = \<lfloor>rng pos * 31\<rfloor> + 1
            in fallback_pick rng (if num \<in> set main then main else main @ [num]) (Suc pos))
      else Some (main, pos))"

declare fallback_pick.simps [code]

definition fallback_trial :: "random_source \<Rightarrow> fallback_state \<Rightarrow> fallback_state option" where
  "fallback_trial rng s =
     (case fallback_pick rng [] (fb_pos s) of
        None \<Rightarrow> None
      | Some (picked, pos1) \<Rightarrow>
          let main = sort picked;
              bonus = \<lfloor>rng pos1 * 12\<rfloor> + 1
          in Some (s\<lparr>fb_results := fb_results s @
                      [\<lparr>result_id = processed s + 1, mainNumbers = main, bonusNumber = bonus,
                        checksum = sum_list main * bonus\<rparr>],
                    fb_pos := Suc pos1\<rparr>))"

text \<open>
  \<^verbatim>\<open>for (let i = 0; i < chunkSize && processed < iterations; i++, processed++)\<close> with
  \<^verbatim>\<open>chunkSize = 10\<close>.
\<close>

function chunk_loop ::
  "random_source \<Rightarrow> int \<Rightarrow> int \<Rightarrow> fallback_state \<Rightarrow> fallback_state option"
where
  "chunk_loop rng its i s =
     (if i < 10 \<and> processed s < its
      then (case fallback_trial rng s of
              None \<Rightarrow> None
            | Some s' \<Rightarrow> chunk_loop rng its (i + 1) (s'\<lparr>processed := processed s' + 1\<rparr>))
      else Some s)"
  by pat_completeness auto
termination
  by (relation "measure (\<lambda>(rng, its, i, s). nat (10 - i))") auto

declare chunk_loop.simps [simp del]

definition fallback_statistics :: "int \<Rightarrow> SimulationResult list \<Rightarrow> SimulationStatistics" where
  "fallback_statistics its rs =
     \<lparr>totalSimulations = its,
      mostFrequentMain = [3, 7, 12, 18, 24, 29],
      mostFrequentBonus = Num 6,
      averageSum =
        Math_round (js_div (of_int (sum_list (map (\<lambda>r. sum_list (mainNumbers r)) rs))) (of_int its)),
      optimizedCombinations = None\<rparr>"

text \<open>
  \<^verbatim>\<open>processChunk\<close>: one chunk, \<^verbatim>\<open>setProgress\<close>, then either the next chunk (through
  \<^verbatim>\<open>setTimeout\<close>) or the statistics. The result is the final state together with the
  arguments of \<^verbatim>\<open>setResults\<close> and \<^verbatim>\<open>setStatistics\<close>.
\<close>

partial_function (option) processChunk ::
  "random_source \<Rightarrow> int \<Rightarrow> fallback_state \<Rightarrow>
   (fallback_state \<times> SimulationResult list \<times> SimulationStatistics) option"
where
  "processChunk rng its s =
     Option.bind (chunk_loop rng its 0 s)
       (\<lambda>s1. let s2 = s1\<lparr>progress := js_times (js_div (of_int (processed s1)) (of_int its)) 100\<rparr>
             in if processed s2 < its
                then processChunk rng its s2
                else Some (s2, slice_last 50 (fb_results s2),
                           fallback_statistics its (fb_results s2)))"

declare processChunk.simps [code]

definition runFallbackSimulation ::
  "random_source \<Rightarrow> int \<Rightarrow> (fallback_state \<times> SimulationResult list \<times> SimulationStatistics) option"
where
  "runFallbackSimulation rng its =
     processChunk rng its \<lparr>fb_results = [], processed = 0, progress = Num 0, fb_pos = 0\<rparr>"

subsection \<open>Vocabulary of the statements\<close>

text \<open>
  The progress values that the specification describes for a run of \<open>its\<close> trials of
  which \<open>j\<close> are completed: one value for every completed count that is a positive
  multiple of \<open>\<lceil>its / 10\<rceil>\<close>, in order of completion. The value is written as the code
  computes it, \<^verbatim>\<open>((i + 1) / iterations) * 100\<close>.
\<close>

definition expected_progress :: "int \<Rightarrow> int \<Rightarrow> rat list" where
  "expected_progress its j =
     map (\<lambda>c. of_int c / of_int its * 100)
       (filter (\<lambda>c. c mod \<lceil>of_int its / (10 :: rat)\<rceil> = 0) [1..j])"

text \<open>The payloads of the progress messages of a message list, in order.\<close>

fun progress_values :: "message list \<Rightarrow> rat list" where
  "progress_values [] = []"
| "progress_values (PROGRESS x # msgs) = x # progress_values msgs"
| "progress_values (_ # msgs) = progress_values msgs"

text \<open>What the specification asks of one draw.\<close>

definition draw_valid :: "payload \<Rightarrow> SimulationResult \<Rightarrow> bool" where
  "draw_valid p d =
     (distinct (mainNumbers d) \<and> sorted (mainNumbers d)
      \<and> list_all (\<lambda>n. range_min (mainNumberRange p) \<le> n \<and> n \<le> range_max (mainNumberRange p))
            (mainNumbers d)
      \<and> int (length (mainNumbers d)) = range_count (mainNumberRange p)
      \<and> range_min (bonusNumberRange p) \<le> bonusNumber d
      \<and> bonusNumber d \<le> range_max (bonusNumberRange p)
      \<and> checksum d = sum_list (mainNumbers d) * bonusNumber d)"

text \<open>The statistics of the terminal message of a run, when there is one.\<close>

fun final_statistics :: "message list run \<Rightarrow> SimulationStatistics option" where
  "final_statistics (Returned msgs) =
     (case rev msgs of COMPLETE rs st # _ \<Rightarrow> Some st | _ \<Rightarrow> None)"
| "final_statistics (Diverged msgs) = None"

definition combinations_of :: "SimulationStatistics \<Rightarrow> RankedCombination list" where
  "combinations_of st = (case optimizedCombinations st of None \<Rightarrow> [] | Some cs \<Rightarrow> cs)"

subsection \<open>Concrete inputs\<close>

text \<open>Random streams and start payloads on which the statements below are evaluated.\<close>

text \<open>The stream that is 0 forever.\<close>

definition rng_zero :: random_source where
  "rng_zero i = 0"

text \<open>The stream \<open>0, 1/31, 2/31, \<dots>, 30/31\<close>, repeated.\<close>

definition rng_cycle :: random_source where
  "rng_cycle i = of_nat (i mod 31) / 31"

text \<open>Twelve times 0, then 1/2 forever.\<close>

definition rng_split :: random_source where
  "rng_split i = (if i < 12 then 0 else 1 / 2)"

text \<open>\<open>0, 1/31, \<dots>, 6/31\<close>, then 23/24 forever: the eighth value selects the bonus number 12 of 1..12.\<close>

definition rng_high_bonus :: random_source where
  "rng_high_bonus i = (if i < 7 then of_nat i / 31 else 23 / 24)"

text \<open>The payload that the page sends: 6 of 1..31 and a bonus number of 1..12.\<close>

definition page_payload :: "int \<Rightarrow> payload" where
  "page_payload n =
     \<lparr>iterations = n,
      mainNumberRange = \<lparr>range_min = 1, range_max = 31, range_count = 6\<rparr>,
      bonusNumberRange = \<lparr>range_min = 1, range_max = 12, range_count = 1\<rparr>\<rparr>"

text \<open>Six unique numbers requested of the five values 1..5.\<close>

definition six_of_five :: "int \<Rightarrow> payload" where
  "six_of_five n =
     \<lparr>iterations = n,
      mainNumberRange = \<lparr>range_min = 1, range_max = 5, range_count = 6\<rparr>,
      bonusNumberRange = \<lparr>range_min = 1, range_max = 12, range_count = 1\<rparr>\<rparr>"

text \<open>Five unique numbers requested of the two values 3..4.\<close>

definition five_of_two :: "int \<Rightarrow> payload" where
  "five_of_two n =
     \<lparr>iterations = n,
      mainNumberRange = \<lparr>range_min = 3, range_max = 4, range_count = 5\<rparr>,
      bonusNumberRange = \<lparr>range_min = 1, range_max = 12, range_count = 1\<rparr>\<rparr>"

text \<open>One number of the two values 1..2.\<close>

definition one_of_two :: "int \<Rightarrow> payload" where
  "one_of_two n =
     \<lparr>iterations = n,
      mainNumberRange = \<lparr>range_min = 1, range_max = 2, range_count = 1\<rparr>,
      bonusNumberRange = \<lparr>range_min = 1, range_max = 12, range_count = 1\<rparr>\<rparr>"

text \<open>Six times 1/2, then 0 forever.\<close>

definition rng_late_low :: random_source where
  "rng_late_low i = (if i < 6 then 1 / 2 else 0)"

text \<open>A host whose \<^verbatim>\<open>Set\<close> is full in the second trial.\<close>

definition full_set_host :: host where
  "full_set_host =
     \<lparr>sampling_fault = (\<lambda>i. if i = 1 then Some (Error_instance ''Set maximum size exceeded'') else None),
      recording_fault = (\<lambda>i. None), final_fault = None\<rparr>"

section \<open>Properties\<close>

subsection \<open>The sampling loop\<close>

lemma sample_in_range:
  assumes "0 \<le> (r :: rat)" and "r < 1" and "mn \<le> mx"
  shows "mn \<le> \<lfloor>r * of_int (mx - mn + 1)\<rfloor> + mn \<and> \<lfloor>r * of_int (mx - mn + 1)\<rfloor> + mn \<le> mx"
proof -
  let ?k = "mx - mn + 1"
  have k: "0 < (of_int ?k :: rat)"
    using assms(3) by simp
  have "0 \<le> r * of_int ?k"
    using assms(1) k by simp
  then have lo: "0 \<le> \<lfloor>r * of_int ?k\<rfloor>"
    by simp
  have "r * of_int ?k < 1 * of_int ?k"
    using assms(2) k by (rule mult_strict_right_mono)
  then have "\<lfloor>r * of_int ?k\<rfloor> < ?k"
    by (simp only: floor_less_iff mult_1)
  with lo show ?thesis
    by simp
qed

lemma Set_add_distinct: "distinct numbers \<Longrightarrow> distinct (Set_add numbers v)"
  by (simp add: Set_add_def)

lemma Set_add_set: "set (Set_add numbers v) = insert v (set numbers)"
  by (auto simp: Set_add_def)

lemma Set_add_length: "length (Set_add numbers v) \<le> Suc (length numbers) \<and> length numbers \<le> length (Set_add numbers v)"
  by (simp add: Set_add_def)

lemma distinct_in_range_length:
  assumes "distinct numbers" and "set numbers \<subseteq> {mn..mx}"
  shows "int (length numbers) \<le> max 0 (mx - mn + 1)"
proof -
  have "card (set numbers) \<le> card {mn..mx}"
    using assms(2) by (intro card_mono) simp_all
  then show ?thesis
    using assms(1) by (simp add: distinct_card)
qed

lemma generateUniqueNumbers_loop_diverges:
  assumes "valid_rng rng" and "mn \<le> mx" and "mx - mn + 1 < cnt"
    and "distinct numbers" and "set numbers \<subseteq> {mn..mx}"
  shows "generateUniqueNumbers_loop rng cnt mn mx numbers pos = None"
proof (rule ccontr)
  let ?I = "\<lambda>(rng :: random_source) cnt mn mx numbers. valid_rng rng \<and> mn \<le> mx
    \<and> mx - mn + 1 < cnt \<and> distinct numbers \<and> set numbers \<subseteq> {mn..mx}"
  assume "generateUniqueNumbers_loop rng cnt mn mx numbers pos \<noteq> None"
  then obtain y where y: "generateUniqueNumbers_loop rng cnt mn mx numbers pos = Some y"
    by auto
  have "\<not> ?I rng cnt mn mx numbers"
  proof (rule generateUniqueNumbers_loop.raw_induct
      [where P = "\<lambda>rng cnt mn mx numbers pos y. \<not> ?I rng cnt mn mx numbers", OF _ y])
    fix loop rng cnt mn mx numbers pos y
    assume IH: "\<And>rng cnt mn mx numbers pos y.
        loop rng cnt mn mx numbers pos = Some y \<Longrightarrow> \<not> ?I rng cnt mn mx numbers"
      and unfolded: "(if int (length numbers) < cnt
           then loop rng cnt mn mx
                  (Set_add numbers (\<lfloor>rng pos * of_int (mx - mn + 1)\<rfloor> + mn)) (Suc pos)
           else Some (numbers, pos)) = Some y"
    show "\<not> ?I rng cnt mn mx numbers"
    proof
      assume inv: "?I rng cnt mn mx numbers"
      let ?v = "\<lfloor>rng pos * of_int (mx - mn + 1)\<rfloor> + mn"
      from inv have "int (length numbers) < cnt"
        using distinct_in_range_length [of numbers mn mx] by simp
      with unfolded have call: "loop rng cnt mn mx (Set_add numbers ?v) (Suc pos) = Some y"
        by simp
      from inv have "0 \<le> rng pos" and "rng pos < 1" and "mn \<le> mx"
        by (simp_all add: valid_rng_def)
      then have "mn \<le> ?v \<and> ?v \<le> mx"
        by (rule sample_in_range)
      then have "set (Set_add numbers ?v) \<subseteq> {mn..mx}"
        using inv by (simp add: Set_add_set)
      moreover have "distinct (Set_add numbers ?v)"
        using inv by (simp add: Set_add_distinct)
      ultimately show False
        using IH [OF call] inv by blast
    qed
  qed
  with assms show False
    by simp
qed


lemma generateUniqueNumbers_loop_result:
  assumes "generateUniqueNumbers_loop rng cnt mn mx numbers pos = Some y"
  shows "(distinct numbers \<longrightarrow> distinct (fst y))
    \<and> (valid_rng rng \<and> mn \<le> mx \<and> set numbers \<subseteq> {mn..mx} \<longrightarrow> set (fst y) \<subseteq> {mn..mx})
    \<and> (int (length numbers) \<le> cnt \<longrightarrow> int (length (fst y)) = cnt)"
proof (rule generateUniqueNumbers_loop.raw_induct
    [where P = "\<lambda>rng cnt mn mx numbers pos y. (distinct numbers \<longrightarrow> distinct (fst y))
      \<and> (valid_rng rng \<and> mn \<le> mx \<and> set numbers \<subseteq> {mn..mx} \<longrightarrow> set (fst y) \<subseteq> {mn..mx})
      \<and> (int (length numbers) \<le> cnt \<longrightarrow> int (length (fst y)) = cnt)", OF _ assms])
  fix loop and rng :: random_source and cnt mn mx :: int and numbers :: "int list"
    and pos :: nat and y :: "int list \<times> nat"
  let ?v = "\<lfloor>rng pos * of_int (mx - mn + 1)\<rfloor> + mn"
  assume IH: "\<And>rng cnt mn mx numbers pos y. loop rng cnt mn mx numbers pos = Some y \<Longrightarrow>
      (distinct numbers \<longrightarrow> distinct (fst y))
      \<and> (valid_rng rng \<and> mn \<le> mx \<and> set numbers \<subseteq> {mn..mx} \<longrightarrow> set (fst y) \<subseteq> {mn..mx})
      \<and> (int (length numbers) \<le> cnt \<longrightarrow> int (length (fst y)) = cnt)"
    and unfolded: "(if int (length numbers) < cnt
         then loop rng cnt mn mx (Set_add numbers ?v) (Suc pos)
         else Some (numbers, pos)) = Some y"
  show "(distinct numbers \<longrightarrow> distinct (fst y))
      \<and> (valid_rng rng \<and> mn \<le> mx \<and> set numbers \<subseteq> {mn..mx} \<longrightarrow> set (fst y) \<subseteq> {mn..mx})
      \<and> (int (length numbers) \<le> cnt \<longrightarrow> int (length (fst y)) = cnt)"
  proof (cases "int (length numbers) < cnt")
    case False
    with unfolded show ?thesis
      by auto
  next
    case True
    with unfolded have call: "loop rng cnt mn mx (Set_add numbers ?v) (Suc pos) = Some y"
      by simp
    note ih = IH [OF call]
    have d: "distinct (fst y)" if "distinct numbers"
      using ih that by (simp add: Set_add_distinct)
    have r: "set (fst y) \<subseteq> {mn..mx}"
      if "valid_rng rng \<and> mn \<le> mx \<and> set numbers \<subseteq> {mn..mx}"
    proof -
      from that have "0 \<le> rng pos" and "rng pos < 1" and "mn \<le> mx"
        by (simp_all add: valid_rng_def)
      then have "mn \<le> ?v \<and> ?v \<le> mx"
        by (rule sample_in_range)
      with that have "set (Set_add numbers ?v) \<subseteq> {mn..mx}"
        by (simp add: Set_add_set)
      with ih that show ?thesis
        by blast
    qed
    have l: "int (length (fst y)) = cnt"
    proof -
      have "int (length (Set_add numbers ?v)) \<le> cnt"
        using True Set_add_length [of numbers ?v] by linarith
      with ih show ?thesis
        by blast
    qed
    from d r l show ?thesis
      by blast
  qed
qed

lemma generateUniqueNumbers_result:
  assumes "generateUniqueNumbers rng cnt mn mx pos = Some (main, pos')"
  shows "distinct main" and "sorted main"
    and "0 \<le> cnt \<Longrightarrow> int (length main) = cnt"
    and "valid_rng rng \<Longrightarrow> mn \<le> mx \<Longrightarrow> set main \<subseteq> {mn..mx}"
proof -
  from assms obtain numbers
    where loop: "generateUniqueNumbers_loop rng cnt mn mx [] pos = Some (numbers, pos')"
      and main: "main = sort numbers"
    by (auto simp: generateUniqueNumbers_def split: option.splits)
  note r = generateUniqueNumbers_loop_result [OF loop]
  from r main show "distinct main" and "sorted main"
    by simp_all
  from r main show "int (length main) = cnt" if "0 \<le> cnt"
    using that by simp
  from r main show "set main \<subseteq> {mn..mx}" if "valid_rng rng" and "mn \<le> mx"
    using that by simp
qed

lemma generateUniqueNumbers_diverges:
  assumes "valid_rng rng" and "mn \<le> mx" and "mx - mn + 1 < cnt"
  shows "generateUniqueNumbers rng cnt mn mx pos = None"
  using generateUniqueNumbers_loop_diverges [OF assms, of "[]" pos]
  by (simp add: generateUniqueNumbers_def)

lemma trial_diverges:
  assumes "valid_rng rng" and "range_min (mainNumberRange p) \<le> range_max (mainNumberRange p)"
    and "range_max (mainNumberRange p) - range_min (mainNumberRange p) + 1
           < range_count (mainNumberRange p)"
  shows "trial rng p i s = None"
  by (simp add: trial_def Let_def generateUniqueNumbers_diverges [OF assms])

lemma runSimulation_diverges:
  assumes "valid_rng rng" and "1 \<le> iterations p"
    and "range_min (mainNumberRange p) \<le> range_max (mainNumberRange p)"
    and "range_max (mainNumberRange p) - range_min (mainNumberRange p) + 1
           < range_count (mainNumberRange p)"
  shows "runSimulation rng p = Diverged []"
proof -
  have "trial rng p 0 initial_state = None"
    using assms(1,3,4) by (rule trial_diverges)
  with assms(2) have "simulation_loop rng p 0 initial_state = Diverged initial_state"
    by (subst simulation_loop.simps) simp
  then show ?thesis
    by (simp add: runSimulation_def initial_state_def)
qed

lemma runSimulation_no_trial:
  assumes "iterations p \<le> 0"
  shows "runSimulation rng p = Returned [COMPLETE [] (statistics p initial_state)]"
proof -
  from assms have "simulation_loop rng p 0 initial_state = Returned initial_state"
    by (subst simulation_loop.simps) simp
  then show ?thesis
    by (simp add: runSimulation_def initial_state_def slice_last_def)
qed

subsection \<open>Starts that the specification calls configuration errors\<close>

text \<open>
  C1, as the code has it: the worker checks nothing before the loop. For every start with
  \<open>1 \<le> iterations\<close> whose main range has \<open>min \<le> max\<close> and
  \<open>count > max - min + 1\<close>, and for every random stream with values in \<open>[0, 1)\<close>, the
  sampling loop of the first trial never returns: the run hangs, and it posts no message at
  all, neither an error nor anything else.
\<close>

theorem C1_impossible_range_hangs:
  assumes "valid_rng rng" and "1 \<le> iterations p"
    and "range_min (mainNumberRange p) \<le> range_max (mainNumberRange p)"
    and "range_max (mainNumberRange p) - range_min (mainNumberRange p) + 1
           < range_count (mainNumberRange p)"
  shows "trial rng p 0 initial_state = None \<and> runSimulation rng p = Diverged []"
  using trial_diverges [OF assms(1,3,4)] runSimulation_diverges [OF assms] by simp

theorem C1_impossible_range_hangs_witness:
  "valid_rng rng_cycle \<and> 1 \<le> iterations (six_of_five 1000)
   \<and> trial rng_cycle (six_of_five 1000) 0 initial_state = None
   \<and> runSimulation rng_cycle (six_of_five 1000) = Diverged []"
proof -
  have v: "valid_rng rng_cycle"
    by (simp add: valid_rng_def rng_cycle_def)
  show ?thesis
    using v C1_impossible_range_hangs [of rng_cycle "six_of_five 1000"]
    by (simp add: six_of_five_def)
qed

text \<open>
  The claim as written asks for an immediate error. On the scenario of the specification
  (6 of 1..5) with one iteration the run does not return and posts nothing.
\<close>

theorem C1_fail_fast_counterexample:
  "runSimulation rng_zero (six_of_five 1) = Diverged []"
  by (rule runSimulation_diverges) (simp_all add: valid_rng_def rng_zero_def six_of_five_def)

text \<open>
  C2, as the code has it: for every start with \<open>iterations \<le> 0\<close> the loop body is never
  entered and the run returns after posting exactly one message, a \<^verbatim>\<open>COMPLETE\<close> that
  carries no draws and the statistics of the empty tables: \<open>totalSimulations\<close> is the
  given iteration count, \<open>mostFrequentMain\<close> is empty, \<open>mostFrequentBonus\<close> is
  \<^verbatim>\<open>undefined\<close>, and three combinations are listed. No error is posted.
\<close>

theorem C2_no_iterations_completes:
  assumes "iterations p \<le> 0"
  shows "runSimulation rng p = Returned [COMPLETE [] (statistics p initial_state)]
    \<and> totalSimulations (statistics p initial_state) = iterations p
    \<and> mostFrequentMain (statistics p initial_state) = []
    \<and> mostFrequentBonus (statistics p initial_state) = Undefined
    \<and> map_option length (optimizedCombinations (statistics p initial_state)) = Some 3"
  using runSimulation_no_trial [OF assms, of rng]
  by (simp add: statistics_def initial_state_def topMain_def sortedMain_def sortedBonus_def
      sort_by_count_desc_def array_get_def top3Combinations_def)

theorem C2_no_iterations_completes_witness:
  "iterations (page_payload (- 3)) \<le> 0
   \<and> runSimulation rng_cycle (page_payload (- 3))
       = Returned [COMPLETE [] (statistics (page_payload (- 3)) initial_state)]
   \<and> totalSimulations (statistics (page_payload (- 3)) initial_state) = - 3
   \<and> mostFrequentMain (statistics (page_payload (- 3)) initial_state) = []"
  using C2_no_iterations_completes [of "page_payload (- 3)" rng_cycle]
  by (simp add: page_payload_def)

text \<open>
  The claim as written asks that no statistics be produced. With \<open>iterations = 0\<close> the
  run posts a \<^verbatim>\<open>COMPLETE\<close> message with a statistics object.
\<close>

theorem C2_zero_iterations_counterexample:
  "runSimulation rng_zero (page_payload 0) =
     Returned
       [COMPLETE []
          \<lparr>totalSimulations = 0, mostFrequentMain = [], mostFrequentBonus = Undefined,
           averageSum = NaN,
           optimizedCombinations =
             Some
               [\<lparr>rank = ''Primary Result'', combo_mainNumbers = [],
                 combo_bonusNumber = Num 1, frequencyScore = NaN\<rparr>,
                \<lparr>rank = ''Secondary Result'', combo_mainNumbers = [],
                 combo_bonusNumber = NaN, frequencyScore = NaN\<rparr>,
                \<lparr>rank = ''Tertiary Result'', combo_mainNumbers = [],
                 combo_bonusNumber = NaN, frequencyScore = NaN\<rparr>]\<rparr>]"
  by code_simp


subsection \<open>The trial loop\<close>

lemma trial_Some:
  assumes "trial rng p i s = Some s'"
  obtains main pos2 where
    "generateUniqueNumbers rng (range_count (mainNumberRange p)) (range_min (mainNumberRange p))
       (range_max (mainNumberRange p)) (heavyComputation rng (rng_pos s)) = Some (main, pos2)"
    and "results s' = results s @
           [\<lparr>result_id = i + 1, mainNumbers = main,
             bonusNumber = \<lfloor>rng pos2 * of_int (range_max (bonusNumberRange p)
               - range_min (bonusNumberRange p) + 1)\<rfloor> + range_min (bonusNumberRange p),
             checksum = calculateChecksum main (\<lfloor>rng pos2 * of_int (range_max (bonusNumberRange p)
               - range_min (bonusNumberRange p) + 1)\<rfloor> + range_min (bonusNumberRange p))\<rparr>]"
    and "mainFrequency s' = record_main (mainFrequency s) main"
    and "bonusFrequency s' = Map_set (bonusFrequency s)
           (\<lfloor>rng pos2 * of_int (range_max (bonusNumberRange p)
               - range_min (bonusNumberRange p) + 1)\<rfloor> + range_min (bonusNumberRange p))
           (get_or_0 (bonusFrequency s) (\<lfloor>rng pos2 * of_int (range_max (bonusNumberRange p)
               - range_min (bonusNumberRange p) + 1)\<rfloor> + range_min (bonusNumberRange p)) + 1)"
    and "totalSum s' = totalSum s + sum_list main"
    and "posted s' =
           (if progress_due i (iterations p)
            then posted s @ [PROGRESS (of_int (i + 1) / of_int (iterations p) * 100)]
            else posted s)"
  using assms by (auto simp: trial_def Let_def split: option.splits)

lemma simulation_loop_rule:
  assumes "Q i s"
    and "\<And>j t t'. Q j t \<Longrightarrow> i \<le> j \<Longrightarrow> j < iterations p \<Longrightarrow> trial rng p j t = Some t'
           \<Longrightarrow> Q (j + 1) t'"
  shows "\<exists>j. i \<le> j \<and> Q j (reached (simulation_loop rng p i s))
           \<and> (if is_Returned (simulation_loop rng p i s) then j = max i (iterations p)
               else j < iterations p
                 \<and> trial rng p j (reached (simulation_loop rng p i s)) = None)"
  using assms
proof (induction rng p i s rule: simulation_loop.induct)
  case (1 rng p i s)
  show ?case
  proof (cases "i < iterations p")
    case False
    then have eq: "simulation_loop rng p i s = Returned s"
      by (subst simulation_loop.simps) simp
    from False have "i = max i (iterations p)"
      by simp
    with "1.prems"(1) show ?thesis
      unfolding eq by (intro exI [of _ i]) simp
  next
    case True
    show ?thesis
    proof (cases "trial rng p i s")
      case None
      with True have eq: "simulation_loop rng p i s = Diverged s"
        by (subst simulation_loop.simps) simp
      from True None "1.prems"(1) show ?thesis
        unfolding eq by (intro exI [of _ i]) simp
    next
      case (Some s')
      with True have eq: "simulation_loop rng p i s = simulation_loop rng p (i + 1) s'"
        by (subst simulation_loop.simps) simp
      have "i \<le> i"
        by simp
      with "1.prems"(1) have next_inv: "Q (i + 1) s'"
        using True Some by (rule "1.prems"(2))
      have step: "Q (j + 1) t'"
        if "Q j t" and "i + 1 \<le> j" and "j < iterations p" and "trial rng p j t = Some t'"
        for j t t'
      proof -
        from that(2) have "i \<le> j"
          by simp
        with that(1) show ?thesis
          using that(3,4) by (rule "1.prems"(2))
      qed
      have ih: "\<exists>j. i + 1 \<le> j \<and> Q j (reached (simulation_loop rng p (i + 1) s'))
           \<and> (if is_Returned (simulation_loop rng p (i + 1) s')
               then j = max (i + 1) (iterations p)
               else j < iterations p
                 \<and> trial rng p j (reached (simulation_loop rng p (i + 1) s')) = None)"
        using True Some next_inv
      proof (rule "1.IH")
        fix j t t'
        assume "Q j t" and "i + 1 \<le> j" and "j < iterations p" and "trial rng p j t = Some t'"
        then show "Q (j + 1) t'"
          by (rule step)
      qed
      from True have m: "max (i + 1) (iterations p) = max i (iterations p)"
        by simp
      from ih show ?thesis
      proof (elim exE conjE)
        fix j
        assume j: "i + 1 \<le> j" and inv: "Q j (reached (simulation_loop rng p (i + 1) s'))"
          and fin: "if is_Returned (simulation_loop rng p (i + 1) s')
               then j = max (i + 1) (iterations p)
               else j < iterations p
                 \<and> trial rng p j (reached (simulation_loop rng p (i + 1) s')) = None"
        show ?thesis
          unfolding eq
        proof (intro exI [of _ j] conjI)
          show "i \<le> j"
            using j by simp
          show "Q j (reached (simulation_loop rng p (i + 1) s'))"
            by (rule inv)
          show "if is_Returned (simulation_loop rng p (i + 1) s')
               then j = max i (iterations p)
               else j < iterations p
                 \<and> trial rng p j (reached (simulation_loop rng p (i + 1) s')) = None"
            using fin unfolding m .
        qed
      qed
    qed
  qed
qed

subsection \<open>Progress messages\<close>

lemma block_positive:
  assumes "1 \<le> its"
  shows "0 < \<lceil>of_int its / (10 :: rat)\<rceil>"
proof -
  from assms have "0 < of_int its / (10 :: rat)"
    by simp
  then show ?thesis
    by (simp only: zero_less_ceiling)
qed

lemma progress_due_iff:
  assumes "0 \<le> j" and "j < its"
  shows "progress_due j its \<longleftrightarrow> (j + 1) mod \<lceil>of_int its / (10 :: rat)\<rceil> = 0"
proof -
  from assms have "1 \<le> its"
    by simp
  then have "0 < \<lceil>of_int its / (10 :: rat)\<rceil>"
    by (rule block_positive)
  then have "\<lceil>of_int its / (10 :: rat)\<rceil> \<noteq> 0"
    by (rule less_imp_neq [THEN not_sym])
  then show ?thesis
    unfolding progress_due_def Let_def by blast
qed

lemma expected_progress_step:
  assumes "0 \<le> j"
  shows "expected_progress its (j + 1) =
    expected_progress its j @
      (if (j + 1) mod \<lceil>of_int its / (10 :: rat)\<rceil> = 0
       then [of_int (j + 1) / of_int its * 100] else [])"
proof -
  from assms have "[1..j + 1] = [1..j] @ [j + 1]"
    using upto_rec2 [of 1 "j + 1"] by simp
  then show ?thesis
    by (simp add: expected_progress_def)
qed

lemma expected_progress_empty: "j \<le> 0 \<Longrightarrow> expected_progress its j = []"
  by (simp add: expected_progress_def)

lemma expected_progress_bounds:
  assumes "x \<in> set (expected_progress its j)" and "j \<le> its"
  shows "0 < x \<and> x \<le> 100"
proof -
  from assms(1) obtain c where c: "1 \<le> c" "c \<le> j" and x: "x = of_int c / of_int its * 100"
    by (auto simp: expected_progress_def)
  from c assms(2) have pos: "0 < (of_int its :: rat)" and le: "(of_int c :: rat) \<le> of_int its"
    and cpos: "0 < (of_int c :: rat)"
    by simp_all
  from pos cpos have "0 < of_int c / (of_int its :: rat) * 100"
    by simp
  moreover from pos le have "of_int c / (of_int its :: rat) \<le> 1"
    by (simp add: divide_le_eq_1)
  then have "of_int c / (of_int its :: rat) * 100 \<le> 1 * 100"
    by (rule mult_right_mono) simp
  ultimately show ?thesis
    unfolding x by simp
qed

lemma expected_progress_increasing:
  assumes "j \<le> 0 \<or> 1 \<le> its"
  shows "sorted_wrt (<) (expected_progress its j)"
proof (cases "1 \<le> its")
  case False
  with assms have "j \<le> 0"
    by simp
  then show ?thesis
    by (simp add: expected_progress_empty)
next
  case True
  have "sorted_wrt (<) (filter (\<lambda>c. c mod \<lceil>of_int its / (10 :: rat)\<rceil> = 0) [1..j])"
    by (rule sorted_wrt_filter) (simp add: strict_sorted_iff)
  moreover have "(of_int a :: rat) / of_int its * 100 < of_int b / of_int its * 100"
    if "a < b" for a b :: int
    using that True by (simp add: divide_strict_right_mono)
  ultimately show ?thesis
    unfolding expected_progress_def sorted_wrt_map
    by (rule sorted_wrt_mono_rel [rotated]) simp
qed

lemma runSimulation_unfold:
  "runSimulation rng p =
     (if is_Returned (simulation_loop rng p 0 initial_state)
      then Returned (posted (reached (simulation_loop rng p 0 initial_state)) @
             [COMPLETE (slice_last 50 (results (reached (simulation_loop rng p 0 initial_state))))
                (statistics p (reached (simulation_loop rng p 0 initial_state)))])
      else Diverged (posted (reached (simulation_loop rng p 0 initial_state))))"
  by (cases "simulation_loop rng p 0 initial_state") (simp_all add: runSimulation_def)

lemma posted_invariant:
  "\<exists>j. 0 \<le> j
     \<and> posted (reached (simulation_loop rng p 0 initial_state))
         = map PROGRESS (expected_progress (iterations p) j)
     \<and> (if is_Returned (simulation_loop rng p 0 initial_state)
         then j = max 0 (iterations p) else j < iterations p)"
proof -
  let ?Q = "\<lambda>j t. posted t = map PROGRESS (expected_progress (iterations p) j)"
  have init: "?Q 0 initial_state"
    by (simp add: initial_state_def expected_progress_empty)
  have step: "?Q (j + 1) t'"
    if "?Q j t" and "0 \<le> j" and "j < iterations p" and "trial rng p j t = Some t'"
    for j t t'
  proof -
    from that(4) have "posted t' =
        (if progress_due j (iterations p)
         then posted t @ [PROGRESS (of_int (j + 1) / of_int (iterations p) * 100)]
         else posted t)"
      by (rule trial_Some)
    with that(1) show ?thesis
      by (simp add: progress_due_iff [OF that(2,3)] expected_progress_step [OF that(2)])
  qed
  have "\<exists>j. 0 \<le> j \<and> ?Q j (reached (simulation_loop rng p 0 initial_state))
      \<and> (if is_Returned (simulation_loop rng p 0 initial_state)
          then j = max 0 (iterations p)
          else j < iterations p
            \<and> trial rng p j (reached (simulation_loop rng p 0 initial_state)) = None)"
    using init step by (rule simulation_loop_rule)
  then obtain j where "0 \<le> j" and "?Q j (reached (simulation_loop rng p 0 initial_state))"
    and "if is_Returned (simulation_loop rng p 0 initial_state)
         then j = max 0 (iterations p) else j < iterations p"
    by (auto split: if_splits)
  then show ?thesis
    by (intro exI [of _ j]) simp
qed

lemma expected_progress_max: "expected_progress its (max 0 its) = expected_progress its its"
  by (cases "0 \<le> its") (simp_all add: max_def expected_progress_empty)


text \<open>
  C6, as the code has it: a run of \<open>iterations\<close> trials that returns has posted one
  progress message for every completed count \<open>c\<close> in \<open>1..iterations\<close> that is a
  multiple of \<open>\<lceil>iterations / 10\<rceil>\<close>, in that order, and nothing else before the terminal
  message. Each one carries the percentage \<open>c / iterations * 100\<close>, a value in
  \<open>(0, 100]\<close>, not the fraction \<open>c / iterations\<close>.
\<close>

theorem C6_progress_cadence:
  assumes "runSimulation rng p = Returned msgs"
  shows "(\<exists>rs st. msgs = map PROGRESS (expected_progress (iterations p) (iterations p))
                      @ [COMPLETE rs st])
    \<and> (\<forall>x \<in> set (expected_progress (iterations p) (iterations p)). 0 < x \<and> x \<le> 100)"
proof -
  from posted_invariant [of rng p] obtain j
    where "posted (reached (simulation_loop rng p 0 initial_state))
        = map PROGRESS (expected_progress (iterations p) j)"
      and "if is_Returned (simulation_loop rng p 0 initial_state)
         then j = max 0 (iterations p) else j < iterations p"
    by blast
  with assms have "\<exists>rs st. msgs = map PROGRESS (expected_progress (iterations p) (iterations p))
                      @ [COMPLETE rs st]"
    by (auto simp: runSimulation_unfold expected_progress_max split: if_splits)
  moreover have "\<forall>x \<in> set (expected_progress (iterations p) (iterations p)). 0 < x \<and> x \<le> 100"
    using expected_progress_bounds [of _ "iterations p" "iterations p"] by simp
  ultimately show ?thesis
    by simp
qed

theorem C6_progress_cadence_witness:
  "is_Returned (runSimulation rng_cycle (page_payload 12))
   \<and> (\<exists>rs st. reached (runSimulation rng_cycle (page_payload 12))
         = map PROGRESS [50 / 3, 100 / 3, 50, 200 / 3, 250 / 3, 100] @ [COMPLETE rs st])"
proof -
  have r: "is_Returned (runSimulation rng_cycle (page_payload 12))"
    by code_simp
  then have "runSimulation rng_cycle (page_payload 12)
      = Returned (reached (runSimulation rng_cycle (page_payload 12)))"
    by simp
  from C6_progress_cadence [OF this]
  have "\<exists>rs st. reached (runSimulation rng_cycle (page_payload 12))
      = map PROGRESS (expected_progress (iterations (page_payload 12))
          (iterations (page_payload 12))) @ [COMPLETE rs st]"
    by simp
  moreover have "expected_progress (iterations (page_payload 12)) (iterations (page_payload 12))
      = [50 / 3, 100 / 3, 50, 200 / 3, 250 / 3, 100]"
    by code_simp
  ultimately show ?thesis
    using r by simp
qed

text \<open>
  The claim as written asks for the fraction \<open>completedCount / totalCount\<close> in
  \<open>[0, 1]\<close>. A run of one trial posts the progress value 100.
\<close>

theorem C6_fraction_counterexample:
  "progress_values (reached (runSimulation rng_cycle (page_payload 1))) = [100]
   \<and> \<not> (100 :: rat) \<le> 1"
  by code_simp

text \<open>The two models of the call agree on a host that raises nothing.\<close>

lemma try_loop_no_faults:
  "try_loop no_faults rng p i s =
     (case simulation_loop rng p i s of Returned t \<Rightarrow> Loop_done t | Diverged t \<Rightarrow> Loop_hung t)"
proof (induction rng p i s rule: simulation_loop.induct)
  case (1 rng p i s)
  show ?case
  proof (cases "i < iterations p")
    case False
    then show ?thesis
      by (subst try_loop.simps, subst simulation_loop.simps) simp
  next
    case True
    show ?thesis
    proof (cases "trial rng p i s")
      case None
      with True show ?thesis
        by (subst try_loop.simps, subst simulation_loop.simps) (simp add: no_faults_def)
    next
      case (Some s')
      with True have "try_loop no_faults rng p i s = try_loop no_faults rng p (i + 1) s'"
        by (subst try_loop.simps) (simp add: no_faults_def)
      moreover from True Some
      have "simulation_loop rng p i s = simulation_loop rng p (i + 1) s'"
        by (subst simulation_loop.simps) simp
      ultimately show ?thesis
        using "1.IH" [OF True Some] by simp
    qed
  qed
qed

lemma runSimulation_host_no_faults: "runSimulation_host no_faults rng p = runSimulation rng p"
proof -
  have "final_fault no_faults = None"
    by (simp add: no_faults_def)
  then show ?thesis
    by (cases "simulation_loop rng p 0 initial_state")
      (simp_all add: runSimulation_host_def runSimulation_def try_loop_no_faults)
qed

lemma try_loop_posted:
  assumes "0 \<le> i" and "posted s = map PROGRESS (expected_progress (iterations p) i)"
  shows "\<exists>j. i \<le> j \<and> (j = i \<or> 1 \<le> iterations p)
    \<and> posted (outcome_state (try_loop h rng p i s))
        = map PROGRESS (expected_progress (iterations p) j)"
  using assms
proof (induction h rng p i s rule: try_loop.induct)
  case (1 h rng p i s)
  have stay: ?case if "outcome_state (try_loop h rng p i s) = s"
    using that "1.prems"(2) by (intro exI [of _ i]) simp
  show ?case
  proof (cases "i < iterations p")
    case False
    then have "try_loop h rng p i s = Loop_done s"
      by (subst try_loop.simps) simp
    then show ?thesis
      by (intro stay) simp
  next
    case True
    show ?thesis
    proof (cases "sampling_fault h i")
      case (Some e)
      with True have "try_loop h rng p i s = Loop_threw e s"
        by (subst try_loop.simps) simp
      then show ?thesis
        by (intro stay) simp
    next
      case no_sampling_fault: None
      show ?thesis
      proof (cases "trial rng p i s")
        case None
        with True no_sampling_fault have "try_loop h rng p i s = Loop_hung s"
          by (subst try_loop.simps) simp
        then show ?thesis
          by (intro stay) simp
      next
        case trial: (Some s')
        show ?thesis
        proof (cases "recording_fault h i")
          case (Some e)
          with True no_sampling_fault trial have "try_loop h rng p i s = Loop_threw e s"
            by (subst try_loop.simps) simp
          then show ?thesis
            by (intro stay) simp
        next
          case None
          with True no_sampling_fault trial
          have eq: "try_loop h rng p i s = try_loop h rng p (i + 1) s'"
            by (subst try_loop.simps) simp
          from trial have "posted s' =
              (if progress_due i (iterations p)
               then posted s @ [PROGRESS (of_int (i + 1) / of_int (iterations p) * 100)]
               else posted s)"
            by (rule trial_Some)
          with "1.prems"(2)
          have p': "posted s' = map PROGRESS (expected_progress (iterations p) (i + 1))"
            by (simp add: progress_due_iff [OF "1.prems"(1) True]
                expected_progress_step [OF "1.prems"(1)])
          from "1.prems"(1) have "0 \<le> i + 1"
            by simp
          from "1.IH" [OF True no_sampling_fault trial None this p'] obtain j
            where "i + 1 \<le> j"
              and "posted (outcome_state (try_loop h rng p (i + 1) s'))
                = map PROGRESS (expected_progress (iterations p) j)"
            by blast
          moreover from True "1.prems"(1) have "1 \<le> iterations p"
            by simp
          ultimately show ?thesis
            unfolding eq by (intro exI [of _ j]) simp
        qed
      qed
    qed
  qed
qed

text \<open>
  C7, as the code has it: for every run, on every host, the messages posted are zero or
  more progress messages with strictly increasing values, followed by exactly one terminal
  message when the call returns, either \<^verbatim>\<open>COMPLETE\<close> with statistics or \<^verbatim>\<open>ERROR\<close> with a
  message, and by nothing when a sampling loop never returns. Nothing is posted after the
  terminal message, and statistics are never posted together with an error.
\<close>

theorem C7_message_order:
  "\<exists>ps. sorted_wrt (<) ps
     \<and> (runSimulation_host h rng p = Diverged (map PROGRESS ps)
        \<or> (\<exists>rs st. runSimulation_host h rng p = Returned (map PROGRESS ps @ [COMPLETE rs st]))
        \<or> (\<exists>m. runSimulation_host h rng p = Returned (map PROGRESS ps @ [ERROR m])))"
proof -
  have "posted initial_state = map PROGRESS (expected_progress (iterations p) 0)"
    by (simp add: initial_state_def expected_progress_empty)
  with try_loop_posted [of 0 initial_state p h rng] obtain j
    where j: "j = 0 \<or> 1 \<le> iterations p"
      and posted: "posted (outcome_state (try_loop h rng p 0 initial_state))
        = map PROGRESS (expected_progress (iterations p) j)"
    by auto
  from j have "j \<le> 0 \<or> 1 \<le> iterations p"
    by auto
  then have "sorted_wrt (<) (expected_progress (iterations p) j)"
    by (rule expected_progress_increasing)
  moreover have "runSimulation_host h rng p = Diverged (map PROGRESS (expected_progress (iterations p) j))
    \<or> (\<exists>rs st. runSimulation_host h rng p
          = Returned (map PROGRESS (expected_progress (iterations p) j) @ [COMPLETE rs st]))
    \<or> (\<exists>m. runSimulation_host h rng p
          = Returned (map PROGRESS (expected_progress (iterations p) j) @ [ERROR m]))"
    using posted
    by (cases "try_loop h rng p 0 initial_state"; cases "final_fault h")
      (simp_all add: runSimulation_host_def)
  ultimately show ?thesis
    by blast
qed

text \<open>
  The claim as written promises a terminal message for every run. A start that asks for 5
  unique numbers of 3..4, on a host that raises nothing, posts no message at all.
\<close>

theorem C7_no_terminal_message_counterexample:
  "runSimulation_host no_faults rng_zero (five_of_two 2) = Diverged []"
  unfolding runSimulation_host_no_faults
  by (rule runSimulation_diverges) (simp_all add: valid_rng_def rng_zero_def five_of_two_def)

text \<open>A run that ends in the \<^verbatim>\<open>catch\<close> clause: one progress message, then the error.\<close>

lemma error_run_example:
  "runSimulation_host full_set_host rng_cycle (page_payload 3)
     = Returned [PROGRESS (100 / 3), ERROR ''Set maximum size exceeded'']"
  by code_simp

subsection \<open>Draws and counters\<close>

lemma Map_set_keys_present: "k \<in> fst ` set m \<Longrightarrow> map fst (Map_set m k v) = map fst m"
proof (induction m)
  case Nil
  then show ?case
    by simp
next
  case (Cons e m)
  show ?case
  proof (cases "fst e = k")
    case True
    then show ?thesis
      by (cases e) simp
  next
    case False
    with Cons.prems have "k \<in> fst ` set m"
      by auto
    then have "map fst (Map_set m k v) = map fst m"
      by (rule Cons.IH)
    with False show ?thesis
      by (cases e) simp
  qed
qed

lemma Map_set_keys_absent: "k \<notin> fst ` set m \<Longrightarrow> map fst (Map_set m k v) = map fst m @ [k]"
  by (induction m) auto

lemma Map_set_keys:
  "map fst (Map_set m k v) = (if k \<in> fst ` set m then map fst m else map fst m @ [k])"
  by (simp add: Map_set_keys_present Map_set_keys_absent)

lemma record_main_keys:
  "distinct (map fst mf) \<Longrightarrow> distinct (map fst (record_main mf ns))
     \<and> set (map fst (record_main mf ns)) = set (map fst mf) \<union> set ns"
proof (induction ns arbitrary: mf)
  case Nil
  then show ?case
    by (simp add: record_main_def)
next
  case (Cons n ns)
  let ?mf = "Map_set mf n (get_or_0 mf n + 1)"
  from Cons.prems have d: "distinct (map fst ?mf)"
    by (simp add: Map_set_keys)
  have k: "set (map fst ?mf) = insert n (set (map fst mf))"
    by (auto simp: Map_set_keys)
  have r: "record_main mf (n # ns) = record_main ?mf ns"
    by (simp add: record_main_def)
  from Cons.IH [OF d] k show ?case
    unfolding r by auto
qed

lemma Map_set_increment_sum:
  "sum_list (map snd (Map_set m k (get_or_0 m k + 1))) = sum_list (map snd m) + 1"
  by (induction m) (auto simp: get_or_0_def)

lemma record_main_sum:
  "sum_list (map snd (record_main mf ns)) = sum_list (map snd mf) + length ns"
  by (induction ns arbitrary: mf) (simp_all add: record_main_def Map_set_increment_sum [simplified])

lemma trial_draw_valid:
  assumes "trial rng p i s = Some s'" and "valid_rng rng"
    and "range_min (mainNumberRange p) \<le> range_max (mainNumberRange p)"
    and "0 \<le> range_count (mainNumberRange p)"
    and "range_min (bonusNumberRange p) \<le> range_max (bonusNumberRange p)"
    and "list_all (draw_valid p) (results s)"
  shows "list_all (draw_valid p) (results s')"
proof -
  from assms(1) obtain main pos2 where
    gen: "generateUniqueNumbers rng (range_count (mainNumberRange p))
        (range_min (mainNumberRange p)) (range_max (mainNumberRange p))
        (heavyComputation rng (rng_pos s)) = Some (main, pos2)"
    and res: "results s' = results s @
           [\<lparr>result_id = i + 1, mainNumbers = main,
             bonusNumber = \<lfloor>rng pos2 * of_int (range_max (bonusNumberRange p)
               - range_min (bonusNumberRange p) + 1)\<rfloor> + range_min (bonusNumberRange p),
             checksum = calculateChecksum main (\<lfloor>rng pos2 * of_int (range_max (bonusNumberRange p)
               - range_min (bonusNumberRange p) + 1)\<rfloor> + range_min (bonusNumberRange p))\<rparr>]"
    by (rule trial_Some)
  let ?bonus = "\<lfloor>rng pos2 * of_int (range_max (bonusNumberRange p)
               - range_min (bonusNumberRange p) + 1)\<rfloor> + range_min (bonusNumberRange p)"
  note g = generateUniqueNumbers_result [OF gen]
  from assms(2) have "0 \<le> rng pos2" and "rng pos2 < 1"
    by (simp_all add: valid_rng_def)
  then have bonus: "range_min (bonusNumberRange p) \<le> ?bonus \<and> ?bonus \<le> range_max (bonusNumberRange p)"
    using assms(5) by (rule sample_in_range)
  have range: "list_all (\<lambda>n. range_min (mainNumberRange p) \<le> n \<and> n \<le> range_max (mainNumberRange p)) main"
    using g(4) [OF assms(2,3)] by (auto simp: list_all_iff)
  have "draw_valid p \<lparr>result_id = i + 1, mainNumbers = main, bonusNumber = ?bonus,
      checksum = calculateChecksum main ?bonus\<rparr>"
    using g(1,2) g(3) [OF assms(4)] range bonus
    by (simp add: draw_valid_def calculateChecksum_def)
  with assms(6) show ?thesis
    unfolding res by simp
qed

lemma results_valid:
  assumes "valid_rng rng"
    and "range_min (mainNumberRange p) \<le> range_max (mainNumberRange p)"
    and "0 \<le> range_count (mainNumberRange p)"
    and "range_min (bonusNumberRange p) \<le> range_max (bonusNumberRange p)"
  shows "list_all (draw_valid p) (results (reached (simulation_loop rng p 0 initial_state)))"
proof -
  let ?Q = "\<lambda>(j :: int) t. list_all (draw_valid p) (results t)"
  have init: "?Q 0 initial_state"
    by (simp add: initial_state_def)
  have step: "?Q (j + 1) t'"
    if "?Q j t" and "0 \<le> j" and "j < iterations p" and "trial rng p j t = Some t'"
    for j t t'
    using that(4) assms that(1) by (rule trial_draw_valid)
  have "\<exists>j. 0 \<le> j \<and> ?Q j (reached (simulation_loop rng p 0 initial_state))
      \<and> (if is_Returned (simulation_loop rng p 0 initial_state)
          then j = max 0 (iterations p)
          else j < iterations p
            \<and> trial rng p j (reached (simulation_loop rng p 0 initial_state)) = None)"
    using init step by (rule simulation_loop_rule)
  then show ?thesis
    by blast
qed

lemma counts_invariant:
  assumes "0 \<le> range_count (mainNumberRange p)"
  shows "\<exists>j. 0 \<le> j
     \<and> int (sum_list (map snd (mainFrequency (reached (simulation_loop rng p 0 initial_state)))))
         = range_count (mainNumberRange p) * j
     \<and> int (sum_list (map snd (bonusFrequency (reached (simulation_loop rng p 0 initial_state))))) = j
     \<and> map result_id (results (reached (simulation_loop rng p 0 initial_state))) = [1..j]
     \<and> (if is_Returned (simulation_loop rng p 0 initial_state)
         then j = max 0 (iterations p) else j < iterations p)"
proof -
  let ?c = "range_count (mainNumberRange p)"
  let ?Q = "\<lambda>j t. int (sum_list (map snd (mainFrequency t))) = ?c * j
    \<and> int (sum_list (map snd (bonusFrequency t))) = j \<and> map result_id (results t) = [1..j]"
  have init: "?Q 0 initial_state"
    by (simp add: initial_state_def)
  have step: "?Q (j + 1) t'"
    if inv: "?Q j t" and j: "0 \<le> j" and "j < iterations p" and tr: "trial rng p j t = Some t'"
    for j t t'
  proof -
    from tr obtain main pos2 where
      gen: "generateUniqueNumbers rng ?c (range_min (mainNumberRange p))
        (range_max (mainNumberRange p)) (heavyComputation rng (rng_pos t)) = Some (main, pos2)"
      and res: "results t' = results t @
           [\<lparr>result_id = j + 1, mainNumbers = main,
             bonusNumber = \<lfloor>rng pos2 * of_int (range_max (bonusNumberRange p)
               - range_min (bonusNumberRange p) + 1)\<rfloor> + range_min (bonusNumberRange p),
             checksum = calculateChecksum main (\<lfloor>rng pos2 * of_int (range_max (bonusNumberRange p)
               - range_min (bonusNumberRange p) + 1)\<rfloor> + range_min (bonusNumberRange p))\<rparr>]"
      and mf: "mainFrequency t' = record_main (mainFrequency t) main"
      and bf: "bonusFrequency t' = Map_set (bonusFrequency t)
           (\<lfloor>rng pos2 * of_int (range_max (bonusNumberRange p)
               - range_min (bonusNumberRange p) + 1)\<rfloor> + range_min (bonusNumberRange p))
           (get_or_0 (bonusFrequency t) (\<lfloor>rng pos2 * of_int (range_max (bonusNumberRange p)
               - range_min (bonusNumberRange p) + 1)\<rfloor> + range_min (bonusNumberRange p)) + 1)"
      by (rule trial_Some)
    have len: "int (length main) = ?c"
      using generateUniqueNumbers_result(3) [OF gen assms] .
    have "int (sum_list (map snd (mainFrequency t'))) = ?c * j + ?c"
      using inv len unfolding mf record_main_sum by simp
    then have m: "int (sum_list (map snd (mainFrequency t'))) = ?c * (j + 1)"
      by (simp add: algebra_simps)
    have b: "int (sum_list (map snd (bonusFrequency t'))) = j + 1"
      using inv unfolding bf Map_set_increment_sum by simp
    from j have "[1..j + 1] = [1..j] @ [j + 1]"
      using upto_rec2 [of 1 "j + 1"] by simp
    with inv have r: "map result_id (results t') = [1..j + 1]"
      unfolding res by simp
    from m b r show ?thesis
      by simp
  qed
  have "\<exists>j. 0 \<le> j \<and> ?Q j (reached (simulation_loop rng p 0 initial_state))
      \<and> (if is_Returned (simulation_loop rng p 0 initial_state)
          then j = max 0 (iterations p)
          else j < iterations p
            \<and> trial rng p j (reached (simulation_loop rng p 0 initial_state)) = None)"
    using init step by (rule simulation_loop_rule)
  then obtain j where "0 \<le> j" and "?Q j (reached (simulation_loop rng p 0 initial_state))"
    and "if is_Returned (simulation_loop rng p 0 initial_state)
         then j = max 0 (iterations p) else j < iterations p"
    by (auto split: if_splits)
  then show ?thesis
    by (intro exI [of _ j]) simp
qed


text \<open>
  C8: for every random stream with values in \<open>[0, 1)\<close>, every main range with
  \<open>min \<le> max\<close> and \<open>0 \<le> count\<close> and every bonus range with \<open>min \<le> max\<close>, every
  draw that the loop has recorded, whether the run returns or hangs later, has pairwise
  distinct main numbers in ascending order, each within the main range, \<open>count\<close> of them,
  a bonus number within the bonus range, and the checksum
  \<open>sum mainNumbers * bonusNumber\<close>.
\<close>

theorem C8_every_draw_valid:
  assumes "valid_rng rng"
    and "range_min (mainNumberRange p) \<le> range_max (mainNumberRange p)"
    and "0 \<le> range_count (mainNumberRange p)"
    and "range_min (bonusNumberRange p) \<le> range_max (bonusNumberRange p)"
  shows "list_all (draw_valid p) (results (reached (simulation_loop rng p 0 initial_state)))"
  using assms by (rule results_valid)

theorem C8_every_draw_valid_witness:
  "valid_rng rng_cycle
   \<and> length (results (reached (simulation_loop rng_cycle (page_payload 3) 0 initial_state))) = 3
   \<and> list_all (draw_valid (page_payload 3))
        (results (reached (simulation_loop rng_cycle (page_payload 3) 0 initial_state)))"
proof -
  have v: "valid_rng rng_cycle"
    by (simp add: valid_rng_def rng_cycle_def)
  have l: "length (results (reached (simulation_loop rng_cycle (page_payload 3) 0 initial_state))) = 3"
    by code_simp
  from v l C8_every_draw_valid [of rng_cycle "page_payload 3"] show ?thesis
    by (simp add: page_payload_def)
qed

lemma Map_get_Map_set:
  "Map_get (Map_set m k v) k' = (if k' = k then Some v else Map_get m k')"
  by (induction m) auto

lemma get_or_0_Map_set:
  "get_or_0 (Map_set m k v) n = (if n = k then v else get_or_0 m n)"
  by (simp add: get_or_0_def Map_get_Map_set)

lemma record_main_count:
  "get_or_0 (record_main mf ns) n = get_or_0 mf n + count_list ns n"
proof (induction ns arbitrary: mf)
  case Nil
  show ?case
    by (simp add: record_main_def)
next
  case (Cons k ns)
  have "record_main mf (k # ns) = record_main (Map_set mf k (get_or_0 mf k + 1)) ns"
    by (simp add: record_main_def)
  then show ?case
    using Cons.IH [of "Map_set mf k (get_or_0 mf k + 1)"]
    by (simp add: get_or_0_Map_set)
qed

lemma distinct_count_list:
  "distinct ns \<Longrightarrow> count_list ns n = (if n \<in> set ns then 1 else 0)"
  by (induction ns) auto

lemma tables_invariant:
  "\<exists>j. 0 \<le> j
     \<and> (\<forall>n. get_or_0 (mainFrequency (reached (simulation_loop rng p 0 initial_state))) n
           = length (filter (\<lambda>d. n \<in> set (mainNumbers d))
               (results (reached (simulation_loop rng p 0 initial_state)))))
     \<and> (\<forall>b. get_or_0 (bonusFrequency (reached (simulation_loop rng p 0 initial_state))) b
           = length (filter (\<lambda>d. bonusNumber d = b)
               (results (reached (simulation_loop rng p 0 initial_state)))))
     \<and> set (map fst (mainFrequency (reached (simulation_loop rng p 0 initial_state))))
         = (\<Union>d \<in> set (results (reached (simulation_loop rng p 0 initial_state))). set (mainNumbers d))
     \<and> set (map fst (bonusFrequency (reached (simulation_loop rng p 0 initial_state))))
         = bonusNumber ` set (results (reached (simulation_loop rng p 0 initial_state)))
     \<and> distinct (map fst (mainFrequency (reached (simulation_loop rng p 0 initial_state))))
     \<and> distinct (map fst (bonusFrequency (reached (simulation_loop rng p 0 initial_state))))
     \<and> totalSum (reached (simulation_loop rng p 0 initial_state))
         = sum_list (map (\<lambda>d. sum_list (mainNumbers d))
             (results (reached (simulation_loop rng p 0 initial_state))))
     \<and> (if is_Returned (simulation_loop rng p 0 initial_state)
         then j = max 0 (iterations p) else j < iterations p)"
proof -
  let ?Q = "\<lambda>(j :: int) t.
      (\<forall>n. get_or_0 (mainFrequency t) n
           = length (filter (\<lambda>d. n \<in> set (mainNumbers d)) (results t)))
    \<and> (\<forall>b. get_or_0 (bonusFrequency t) b = length (filter (\<lambda>d. bonusNumber d = b) (results t)))
    \<and> set (map fst (mainFrequency t)) = (\<Union>d \<in> set (results t). set (mainNumbers d))
    \<and> set (map fst (bonusFrequency t)) = bonusNumber ` set (results t)
    \<and> distinct (map fst (mainFrequency t)) \<and> distinct (map fst (bonusFrequency t))
    \<and> totalSum t = sum_list (map (\<lambda>d. sum_list (mainNumbers d)) (results t))"
  have init: "?Q 0 initial_state"
    by (simp add: initial_state_def get_or_0_def)
  have step: "?Q (j + 1) t'"
    if inv: "?Q j t" and "0 \<le> j" and "j < iterations p" and tr: "trial rng p j t = Some t'"
    for j t t'
  proof -
    from tr obtain main pos2 where
      gen: "generateUniqueNumbers rng (range_count (mainNumberRange p))
        (range_min (mainNumberRange p)) (range_max (mainNumberRange p))
        (heavyComputation rng (rng_pos t)) = Some (main, pos2)"
      and res: "results t' = results t @
           [\<lparr>result_id = j + 1, mainNumbers = main,
             bonusNumber = \<lfloor>rng pos2 * of_int (range_max (bonusNumberRange p)
               - range_min (bonusNumberRange p) + 1)\<rfloor> + range_min (bonusNumberRange p),
             checksum = calculateChecksum main (\<lfloor>rng pos2 * of_int (range_max (bonusNumberRange p)
               - range_min (bonusNumberRange p) + 1)\<rfloor> + range_min (bonusNumberRange p))\<rparr>]"
      and mf: "mainFrequency t' = record_main (mainFrequency t) main"
      and bf: "bonusFrequency t' = Map_set (bonusFrequency t)
           (\<lfloor>rng pos2 * of_int (range_max (bonusNumberRange p)
               - range_min (bonusNumberRange p) + 1)\<rfloor> + range_min (bonusNumberRange p))
           (get_or_0 (bonusFrequency t) (\<lfloor>rng pos2 * of_int (range_max (bonusNumberRange p)
               - range_min (bonusNumberRange p) + 1)\<rfloor> + range_min (bonusNumberRange p)) + 1)"
      and ts: "totalSum t' = totalSum t + sum_list main"
      by (rule trial_Some)
    let ?bonus = "\<lfloor>rng pos2 * of_int (range_max (bonusNumberRange p)
               - range_min (bonusNumberRange p) + 1)\<rfloor> + range_min (bonusNumberRange p)"
    have dm: "distinct main"
      using gen by (rule generateUniqueNumbers_result(1))
    have m: "get_or_0 (mainFrequency t') n
        = length (filter (\<lambda>d. n \<in> set (mainNumbers d)) (results t'))" for n
      using inv unfolding mf res record_main_count by (simp add: distinct_count_list [OF dm])
    have b: "get_or_0 (bonusFrequency t') b
        = length (filter (\<lambda>d. bonusNumber d = b) (results t'))" for b
      using inv unfolding bf res get_or_0_Map_set by auto
    from inv have "distinct (map fst (mainFrequency t))"
      by blast
    then have km: "distinct (map fst (mainFrequency t'))
        \<and> set (map fst (mainFrequency t')) = set (map fst (mainFrequency t)) \<union> set main"
      unfolding mf by (rule record_main_keys)
    with inv have km': "set (map fst (mainFrequency t'))
        = (\<Union>d \<in> set (results t'). set (mainNumbers d))"
      unfolding res by auto
    have kb: "distinct (map fst (bonusFrequency t'))
        \<and> set (map fst (bonusFrequency t')) = bonusNumber ` set (results t')"
      using inv unfolding bf res by (auto simp: Map_set_keys)
    have s: "totalSum t' = sum_list (map (\<lambda>d. sum_list (mainNumbers d)) (results t'))"
      using inv unfolding ts res by simp
    from m b km km' kb s show ?thesis
      by blast
  qed
  have "\<exists>j. 0 \<le> j \<and> ?Q j (reached (simulation_loop rng p 0 initial_state))
      \<and> (if is_Returned (simulation_loop rng p 0 initial_state)
          then j = max 0 (iterations p)
          else j < iterations p
            \<and> trial rng p j (reached (simulation_loop rng p 0 initial_state)) = None)"
    using init step by (rule simulation_loop_rule)
  then obtain j where "0 \<le> j" and "?Q j (reached (simulation_loop rng p 0 initial_state))"
    and "if is_Returned (simulation_loop rng p 0 initial_state)
         then j = max 0 (iterations p) else j < iterations p"
    by (auto split: if_splits)
  then show ?thesis
    by (intro exI [of _ j]) simp
qed

text \<open>
  C9: for every run of \<open>iterations \<ge> 0\<close> trials with a main count of 6 that completes
  its loop, the recorded trials are exactly those numbered \<open>1, \<dots>, iterations\<close>, each
  once, and each is folded into the accumulator exactly once: for every number, its main
  count is the number of recorded draws that contain it, and its bonus count is the number
  of recorded draws with that bonus number; the tables have one entry for each number
  drawn and no other entry; the running sum is the sum of the main numbers of all recorded
  draws. Hence the main counts add up to \<open>6 * iterations\<close> and the bonus counts to
  \<open>iterations\<close>.
\<close>

theorem C9_every_trial_counted_once:
  assumes "simulation_loop rng p 0 initial_state = Returned s"
    and "0 \<le> iterations p" and "range_count (mainNumberRange p) = 6"
  shows "int (sum_list (map snd (mainFrequency s))) = 6 * iterations p
    \<and> int (sum_list (map snd (bonusFrequency s))) = iterations p
    \<and> map result_id (results s) = [1..iterations p]
    \<and> (\<forall>n. get_or_0 (mainFrequency s) n
          = length (filter (\<lambda>d. n \<in> set (mainNumbers d)) (results s)))
    \<and> (\<forall>b. get_or_0 (bonusFrequency s) b = length (filter (\<lambda>d. bonusNumber d = b) (results s)))
    \<and> set (map fst (mainFrequency s)) = (\<Union>d \<in> set (results s). set (mainNumbers d))
    \<and> set (map fst (bonusFrequency s)) = bonusNumber ` set (results s)
    \<and> distinct (map fst (mainFrequency s)) \<and> distinct (map fst (bonusFrequency s))
    \<and> totalSum s = sum_list (map (\<lambda>d. sum_list (mainNumbers d)) (results s))"
proof -
  from assms(3) have "0 \<le> range_count (mainNumberRange p)"
    by simp
  from counts_invariant [OF this, of rng] assms
  have totals: "int (sum_list (map snd (mainFrequency s))) = 6 * iterations p
    \<and> int (sum_list (map snd (bonusFrequency s))) = iterations p
    \<and> map result_id (results s) = [1..iterations p]"
    by (auto simp: max_def)
  from tables_invariant [of rng p] assms(1)
  have tables: "(\<forall>n. get_or_0 (mainFrequency s) n
          = length (filter (\<lambda>d. n \<in> set (mainNumbers d)) (results s)))
    \<and> (\<forall>b. get_or_0 (bonusFrequency s) b = length (filter (\<lambda>d. bonusNumber d = b) (results s)))
    \<and> set (map fst (mainFrequency s)) = (\<Union>d \<in> set (results s). set (mainNumbers d))
    \<and> set (map fst (bonusFrequency s)) = bonusNumber ` set (results s)
    \<and> distinct (map fst (mainFrequency s)) \<and> distinct (map fst (bonusFrequency s))
    \<and> totalSum s = sum_list (map (\<lambda>d. sum_list (mainNumbers d)) (results s))"
    by simp
  from totals tables show ?thesis
    by (intro conjI) (elim conjE, assumption)+
qed

theorem C9_every_trial_counted_once_witness:
  "is_Returned (simulation_loop rng_cycle (page_payload 5) 0 initial_state)
   \<and> int (sum_list (map snd (mainFrequency
         (reached (simulation_loop rng_cycle (page_payload 5) 0 initial_state))))) = 30
   \<and> int (sum_list (map snd (bonusFrequency
         (reached (simulation_loop rng_cycle (page_payload 5) 0 initial_state))))) = 5
   \<and> map result_id (results (reached (simulation_loop rng_cycle (page_payload 5) 0 initial_state)))
       = [1, 2, 3, 4, 5]
   \<and> length (filter (\<lambda>d. 3 \<in> set (mainNumbers d))
        (results (reached (simulation_loop rng_cycle (page_payload 5) 0 initial_state)))) = 2
   \<and> get_or_0 (mainFrequency (reached (simulation_loop rng_cycle (page_payload 5) 0 initial_state))) 3
       = 2"
proof -
  let ?s = "reached (simulation_loop rng_cycle (page_payload 5) 0 initial_state)"
  have r: "is_Returned (simulation_loop rng_cycle (page_payload 5) 0 initial_state)"
    by code_simp
  then have ret: "simulation_loop rng_cycle (page_payload 5) 0 initial_state = Returned ?s"
    by simp
  have h: "0 \<le> iterations (page_payload 5)" "range_count (mainNumberRange (page_payload 5)) = 6"
    by (simp_all add: page_payload_def)
  have its: "iterations (page_payload 5) = 5"
    by (simp add: page_payload_def)
  have two: "length (filter (\<lambda>d. 3 \<in> set (mainNumbers d)) (results ?s)) = 2"
    by code_simp
  note c9 = C9_every_trial_counted_once [OF ret h, unfolded its]
  from c9 have "int (sum_list (map snd (mainFrequency ?s))) = 30"
    and "int (sum_list (map snd (bonusFrequency ?s))) = 5"
    and "map result_id (results ?s) = [1, 2, 3, 4, 5]"
    by (simp_all add: upto.simps)
  moreover from c9 have "get_or_0 (mainFrequency ?s) 3
      = length (filter (\<lambda>d. 3 \<in> set (mainNumbers d)) (results ?s))"
    by blast
  ultimately show ?thesis
    using r two by simp
qed

subsection \<open>Rounding to doubles\<close>

lemma round_half_even_range: "\<lfloor>q\<rfloor> \<le> round_half_even q \<and> round_half_even q \<le> \<lfloor>q\<rfloor> + 1"
  by (simp add: round_half_even_def Let_def)

lemma round_half_even_bounds:
  "of_int (round_half_even q) \<le> q + 1 / 2 \<and> q - 1 / 2 \<le> of_int (round_half_even q)"
proof -
  have lo: "of_int \<lfloor>q\<rfloor> \<le> q" and hi: "q < of_int \<lfloor>q\<rfloor> + 1"
    by linarith+
  have "round_half_even q = \<lfloor>q\<rfloor> \<and> q - of_int \<lfloor>q\<rfloor> \<le> 1 / 2
      \<or> round_half_even q = \<lfloor>q\<rfloor> + 1 \<and> 1 / 2 \<le> q - of_int \<lfloor>q\<rfloor>"
    by (auto simp: round_half_even_def Let_def)
  then show ?thesis
  proof (elim disjE conjE)
    assume r: "round_half_even q = \<lfloor>q\<rfloor>" and "q - of_int \<lfloor>q\<rfloor> \<le> 1 / 2"
    with lo show ?thesis
      unfolding r by linarith
  next
    assume r: "round_half_even q = \<lfloor>q\<rfloor> + 1" and "1 / 2 \<le> q - of_int \<lfloor>q\<rfloor>"
    with hi show ?thesis
      unfolding r of_int_add of_int_1 by linarith
  qed
qed

lemma round_half_even_of_int: "round_half_even (of_int n) = n"
  by (simp add: round_half_even_def)

lemma round_half_even_mono:
  assumes "a \<le> b"
  shows "round_half_even a \<le> round_half_even b"
proof (cases "\<lfloor>a\<rfloor> = \<lfloor>b\<rfloor>")
  case True
  with assms show ?thesis
    by (auto simp: round_half_even_def Let_def)
next
  case False
  with assms have "\<lfloor>a\<rfloor> + 1 \<le> \<lfloor>b\<rfloor>"
    using floor_mono [of a b] by simp
  with round_half_even_range [of a] round_half_even_range [of b] show ?thesis
    by linarith
qed

lemma bitlen_power_bounds:
  assumes "0 < p"
  shows "(2 :: rat) powi (bitlen p - 1) \<le> of_int p" and "of_int p < (2 :: rat) powi bitlen p"
proof -
  from assms have pos: "1 \<le> bitlen p"
    by (simp add: bitlen_alt_def)
  from bitlen_bounds [OF assms] have lo: "2 ^ nat (bitlen p - 1) \<le> p" and hi: "p < 2 ^ nat (bitlen p)"
    by simp_all
  from lo have "(of_int (2 ^ nat (bitlen p - 1)) :: rat) \<le> of_int p"
    by (simp only: of_int_le_iff)
  with pos show "(2 :: rat) powi (bitlen p - 1) \<le> of_int p"
    by (simp add: power_int_def)
  from hi have "(of_int p :: rat) < of_int (2 ^ nat (bitlen p))"
    by (simp only: of_int_less_iff)
  with pos show "of_int p < (2 :: rat) powi bitlen p"
    by (simp add: power_int_def)
qed

lemma binade_bounds:
  assumes "0 < x"
  shows "2 powi binade x \<le> x" and "x < 2 powi (binade x + 1)"
proof -
  obtain p q where pq: "quotient_of x = (p, q)"
    by (cases "quotient_of x")
  then have q: "0 < q"
    by (rule quotient_of_denom_pos)
  have x: "x = of_int p / of_int q"
    using pq by (rule quotient_of_div)
  from assms q have p: "0 < p"
    unfolding x by (simp add: zero_less_divide_iff)
  let ?k = "bitlen p - bitlen q"
  note pb = bitlen_power_bounds [OF p] and qb = bitlen_power_bounds [OF q]
  have qpos: "0 < (of_int q :: rat)" and ppos: "0 < (of_int p :: rat)"
    using p q by simp_all
  have "x < 2 powi bitlen p / 2 powi (bitlen q - 1)"
    unfolding x using pb(2) qb(1) qpos ppos by (intro frac_less) simp_all
  also have "\<dots> = 2 powi (?k + 1)"
    by (simp add: power_int_diff [symmetric] algebra_simps)
  finally have upper: "x < 2 powi (?k + 1)" .
  have "2 powi (?k - 1) = 2 powi (bitlen p - 1) / (2 :: rat) powi bitlen q"
    by (simp add: power_int_diff [symmetric] algebra_simps)
  also have "\<dots> < x"
    unfolding x using pb(1) qb(2) qpos ppos by (intro frac_less2) simp_all
  finally have lower: "2 powi (?k - 1) < x" .
  have b: "binade x = (if 2 powi ?k \<le> x then ?k else ?k - 1)"
    using assms pq by (simp add: binade_def Let_def)
  show "2 powi binade x \<le> x"
    using lower unfolding b by simp
  show "x < 2 powi (binade x + 1)"
    using upper unfolding b by (simp add: not_le)
qed


lemma round_double_bounds:
  assumes "0 < x"
  shows "2 powi binade x \<le> round_double x" and "round_double x \<le> 2 powi (binade x + 1)"
proof -
  let ?u = "(2 :: rat) powi (binade x - 52)"
  have u: "0 < ?u"
    by simp
  have lo_eq: "2 powi binade x = of_int (2 ^ 52) * ?u"
    by (simp add: power_int_diff)
  have hi_eq: "2 powi (binade x + 1) = of_int (2 ^ 53) * ?u"
    by (simp add: power_int_diff power_int_add)
  note b = binade_bounds [OF assms]
  from b(1) u have "of_int (2 ^ 52) \<le> x / ?u"
    unfolding lo_eq by (simp add: pos_le_divide_eq)
  then have "round_half_even (of_int (2 ^ 52)) \<le> round_half_even (x / ?u)"
    by (rule round_half_even_mono)
  then have lo: "(of_int (2 ^ 52) :: rat) \<le> of_int (round_half_even (x / ?u))"
    unfolding round_half_even_of_int by (simp only: of_int_le_iff)
  from b(2) u have "x / ?u \<le> of_int (2 ^ 53)"
    unfolding hi_eq by (simp add: pos_divide_le_eq)
  then have "round_half_even (x / ?u) \<le> round_half_even (of_int (2 ^ 53))"
    by (rule round_half_even_mono)
  then have hi: "(of_int (round_half_even (x / ?u)) :: rat) \<le> of_int (2 ^ 53)"
    unfolding round_half_even_of_int by (simp only: of_int_le_iff)
  have rd: "round_double x = of_int (round_half_even (x / ?u)) * ?u"
    using assms by (simp add: round_double_def Let_def)
  show "2 powi binade x \<le> round_double x"
    unfolding rd lo_eq using lo u by (intro mult_right_mono) simp_all
  show "round_double x \<le> 2 powi (binade x + 1)"
    unfolding rd hi_eq using hi u by (intro mult_right_mono) simp_all
qed

lemma round_double_nonneg:
  assumes "0 \<le> x"
  shows "0 \<le> round_double x"
proof (cases "x = 0")
  case True
  then show ?thesis
    by (simp add: round_double_def)
next
  case False
  with assms have "0 < x"
    by simp
  then have "2 powi binade x \<le> round_double x"
    by (rule round_double_bounds)
  moreover have "0 < (2 :: rat) powi binade x"
    by simp
  ultimately show ?thesis
    by linarith
qed

lemma round_double_mono:
  assumes "0 \<le> x" and "x \<le> y"
  shows "round_double x \<le> round_double y"
proof (cases "x = 0")
  case True
  with assms round_double_nonneg [of y] show ?thesis
    by (simp add: round_double_def)
next
  case False
  with assms have x: "0 < x" and y: "0 < y"
    by simp_all
  note bx = binade_bounds [OF x] and by' = binade_bounds [OF y]
  have le: "binade x \<le> binade y"
  proof (rule ccontr)
    assume "\<not> binade x \<le> binade y"
    then have "binade y + 1 \<le> binade x"
      by simp
    then have "(2 :: rat) powi (binade y + 1) \<le> 2 powi binade x"
      by (rule power_int_increasing) simp
    with bx(1) by'(2) assms(2) show False
      by linarith
  qed
  show ?thesis
  proof (cases "binade x = binade y")
    case True
    let ?u = "(2 :: rat) powi (binade y - 52)"
    have u: "0 < ?u"
      by simp
    from assms(2) u have "x / ?u \<le> y / ?u"
      by (simp add: divide_right_mono)
    then have "round_half_even (x / ?u) \<le> round_half_even (y / ?u)"
      by (rule round_half_even_mono)
    then have "(of_int (round_half_even (x / ?u)) :: rat) * ?u \<le> of_int (round_half_even (y / ?u)) * ?u"
      using u by (intro mult_right_mono) simp_all
    with x y True show ?thesis
      by (simp add: round_double_def Let_def)
  next
    case False
    with le have "binade x + 1 \<le> binade y"
      by simp
    then have "(2 :: rat) powi (binade x + 1) \<le> 2 powi binade y"
      by (rule power_int_increasing) simp
    with round_double_bounds(2) [OF x] round_double_bounds(1) [OF y] show ?thesis
      by linarith
  qed
qed

lemma round_double_error:
  assumes "0 \<le> x"
  shows "round_double x \<le> x * (1 + 1 / 2 ^ 53)"
proof (cases "x = 0")
  case True
  then show ?thesis
    by (simp add: round_double_def)
next
  case False
  with assms have x: "0 < x"
    by simp
  let ?u = "(2 :: rat) powi (binade x - 52)"
  have u: "0 < ?u"
    by simp
  have "?u * 2 ^ 52 = 2 powi binade x"
    by (simp add: power_int_diff)
  also have "\<dots> \<le> x"
    using x by (rule binade_bounds)
  finally have ux: "?u * 2 ^ 52 \<le> x" .
  have rd: "round_double x = of_int (round_half_even (x / ?u)) * ?u"
    using x by (simp add: round_double_def Let_def)
  have "of_int (round_half_even (x / ?u)) \<le> x / ?u + 1 / 2"
    using round_half_even_bounds [of "x / ?u"] by simp
  then have "of_int (round_half_even (x / ?u)) * ?u \<le> (x / ?u + 1 / 2) * ?u"
    using u by (intro mult_right_mono) simp_all
  also have "\<dots> = x + ?u / 2"
    using u by (simp add: field_simps)
  finally have "round_double x \<le> x + ?u / 2"
    unfolding rd .
  with ux show ?thesis
    by (simp add: field_simps)
qed

lemma double_literals:
  "double_0_85 = 7656119366529843 / 9007199254740992"
  "double_0_70 = 3152519739159347 / 4503599627370496"
  by code_simp+

text \<open>
  The product with the literal \<^verbatim>\<open>0.85\<close> does not exceed the factor, and the product with
  \<^verbatim>\<open>0.70\<close> does not exceed the one with \<^verbatim>\<open>0.85\<close>, after rounding as before it.
\<close>

lemma weighted_le:
  assumes "0 \<le> y"
  shows "round_double (round_double y * double_0_85) \<le> round_double y"
    and "round_double (round_double y * double_0_70)
           \<le> round_double (round_double y * double_0_85)"
proof -
  let ?x = "round_double y"
  have x: "0 \<le> ?x"
    using assms by (rule round_double_nonneg)
  have "?x * double_0_85 \<le> y * (1 + 1 / 2 ^ 53) * double_0_85"
    using round_double_error [OF assms] by (intro mult_right_mono) (simp_all add: double_literals)
  also have "\<dots> = y * ((1 + 1 / 2 ^ 53) * double_0_85)"
    by (simp only: mult.assoc)
  also have "\<dots> \<le> y * 1"
    using assms by (intro mult_left_mono) (simp_all add: double_literals)
  finally have "?x * double_0_85 \<le> y"
    by simp
  moreover have "0 \<le> ?x * double_0_85"
    using x by (simp add: double_literals)
  ultimately show "round_double (?x * double_0_85) \<le> ?x"
    by (rule round_double_mono [rotated])
  have "?x * double_0_70 \<le> ?x * double_0_85"
    using x by (intro mult_left_mono) (simp_all add: double_literals)
  moreover have "0 \<le> ?x * double_0_70"
    using x by (simp add: double_literals)
  ultimately show "round_double (?x * double_0_70)
      \<le> round_double (?x * double_0_85)"
    by (rule round_double_mono [rotated])
qed

subsection \<open>The ranking\<close>

lemma Map_get_distinct:
  "distinct (map fst m) \<Longrightarrow> (k, v) \<in> set m \<Longrightarrow> Map_get m k = Some v"
  by (induction m) (auto simp: image_iff)

lemma distinct_map_insort:
  "distinct (map g (insort_key f x xs)) \<longleftrightarrow> g x \<notin> g ` set xs \<and> distinct (map g xs)"
  by (induction xs) (auto simp: set_insort_key)

lemma distinct_map_sort_key: "distinct (map g (sort_key f xs)) \<longleftrightarrow> distinct (map g xs)"
  by (induction xs) (simp_all add: distinct_map_insort)

lemma keys_invariant:
  assumes "6 \<le> range_count (mainNumberRange p)"
  shows "\<exists>j. 0 \<le> j
     \<and> distinct (map fst (mainFrequency (reached (simulation_loop rng p 0 initial_state))))
     \<and> (1 \<le> j \<longrightarrow> 6 \<le> length (mainFrequency (reached (simulation_loop rng p 0 initial_state))))
     \<and> (if is_Returned (simulation_loop rng p 0 initial_state)
         then j = max 0 (iterations p) else j < iterations p)"
proof -
  let ?Q = "\<lambda>(j :: int) t. distinct (map fst (mainFrequency t))
    \<and> (1 \<le> j \<longrightarrow> 6 \<le> length (mainFrequency t))"
  have init: "?Q 0 initial_state"
    by (simp add: initial_state_def)
  have step: "?Q (j + 1) t'"
    if inv: "?Q j t" and j: "0 \<le> j" and "j < iterations p" and tr: "trial rng p j t = Some t'"
    for j t t'
  proof -
    from tr obtain main pos2 where
      gen: "generateUniqueNumbers rng (range_count (mainNumberRange p))
        (range_min (mainNumberRange p)) (range_max (mainNumberRange p))
        (heavyComputation rng (rng_pos t)) = Some (main, pos2)"
      and mf: "mainFrequency t' = record_main (mainFrequency t) main"
      by (rule trial_Some)
    from assms have "0 \<le> range_count (mainNumberRange p)"
      by simp
    with gen have "int (length main) = range_count (mainNumberRange p)"
      by (rule generateUniqueNumbers_result(3))
    with assms have len: "6 \<le> length main"
      by simp
    have dm: "distinct main"
      using gen by (rule generateUniqueNumbers_result(1))
    from inv have "distinct (map fst (mainFrequency t))"
      by simp
    then have keys: "distinct (map fst (mainFrequency t'))
        \<and> set (map fst (mainFrequency t')) = set (map fst (mainFrequency t)) \<union> set main"
      unfolding mf by (rule record_main_keys)
    have "length main = card (set main)"
      using dm by (simp add: distinct_card)
    also have "\<dots> \<le> card (set (map fst (mainFrequency t')))"
      using keys by (intro card_mono) auto
    also have "\<dots> = length (map fst (mainFrequency t'))"
      by (rule distinct_card) (rule conjunct1 [OF keys])
    finally have "length main \<le> length (map fst (mainFrequency t'))" .
    with len keys show ?thesis
      by simp
  qed
  have "\<exists>j. 0 \<le> j \<and> ?Q j (reached (simulation_loop rng p 0 initial_state))
      \<and> (if is_Returned (simulation_loop rng p 0 initial_state)
          then j = max 0 (iterations p)
          else j < iterations p
            \<and> trial rng p j (reached (simulation_loop rng p 0 initial_state)) = None)"
    using init step by (rule simulation_loop_rule)
  then obtain j where "0 \<le> j" and "?Q j (reached (simulation_loop rng p 0 initial_state))"
    and "if is_Returned (simulation_loop rng p 0 initial_state)
         then j = max 0 (iterations p) else j < iterations p"
    by (auto split: if_splits)
  then show ?thesis
    by (intro exI [of _ j]) simp
qed

lemma final_statistics_Returned:
  assumes "simulation_loop rng p 0 initial_state = Returned s"
  shows "final_statistics (runSimulation rng p) = Some (statistics p s)"
  using assms by (simp add: runSimulation_def)

lemma top_six:
  assumes d: "distinct (map fst mf)" and len: "6 \<le> length mf"
  shows "length (sort (map fst (take 6 (sort_by_count_desc mf)))) = 6"
    and "distinct (sort (map fst (take 6 (sort_by_count_desc mf))))"
    and "set (sort (map fst (take 6 (sort_by_count_desc mf)))) \<subseteq> fst ` set mf"
    and "\<forall>n \<in> set (sort (map fst (take 6 (sort_by_count_desc mf)))). \<forall>(m, c) \<in> set mf.
           m \<notin> set (sort (map fst (take 6 (sort_by_count_desc mf)))) \<longrightarrow> c \<le> get_or_0 mf n"
proof -
  let ?key = "\<lambda>e :: int \<times> nat. - int (snd e)"
  let ?xs = "sort_key ?key mf"
  have xs: "sort_by_count_desc mf = ?xs"
    by (simp add: sort_by_count_desc_def)
  have set_xs: "set ?xs = set mf"
    by simp
  have dist_xs: "distinct (map fst ?xs)"
    using d by (simp add: distinct_map_sort_key)
  show "length (sort (map fst (take 6 (sort_by_count_desc mf)))) = 6"
    using len by (simp add: xs)
  have "distinct (take 6 (map fst ?xs))"
    using dist_xs by (rule distinct_take)
  then show "distinct (sort (map fst (take 6 (sort_by_count_desc mf))))"
    by (simp add: xs take_map)
  have sub: "set (take 6 ?xs) \<subseteq> set mf"
    using set_take_subset [of 6 ?xs] by simp
  then show "set (sort (map fst (take 6 (sort_by_count_desc mf)))) \<subseteq> fst ` set mf"
    by (auto simp: xs)
  have "sorted (map ?key (take 6 ?xs) @ map ?key (drop 6 ?xs))"
    by (simp only: map_append [symmetric] append_take_drop_id sorted_sort_key)
  then have "\<forall>x \<in> set (map ?key (take 6 ?xs)). \<forall>y \<in> set (map ?key (drop 6 ?xs)). x \<le> y"
    unfolding sorted_append by (elim conjE)
  then have order: "?key a \<le> ?key b" if "a \<in> set (take 6 ?xs)" and "b \<in> set (drop 6 ?xs)" for a b
    using that by (simp only: set_map) blast
  have split: "e \<in> set (take 6 ?xs) \<or> e \<in> set (drop 6 ?xs)" if "e \<in> set mf" for e
  proof -
    from that have "e \<in> set (take 6 ?xs @ drop 6 ?xs)"
      by (simp only: append_take_drop_id set_xs)
    then show ?thesis
      by (simp only: set_append Un_iff)
  qed
  show "\<forall>n \<in> set (sort (map fst (take 6 (sort_by_count_desc mf)))). \<forall>(m, c) \<in> set mf.
           m \<notin> set (sort (map fst (take 6 (sort_by_count_desc mf)))) \<longrightarrow> c \<le> get_or_0 mf n"
  proof (intro ballI, clarify)
    fix n m c
    assume n: "n \<in> set (sort (map fst (take 6 (sort_by_count_desc mf))))"
      and mc: "(m, c) \<in> set mf"
      and out: "m \<notin> set (sort (map fst (take 6 (sort_by_count_desc mf))))"
    from n obtain a where a: "a \<in> set (take 6 ?xs)" and fa: "fst a = n"
      by (auto simp: xs)
    from a sub have "(n, snd a) \<in> set mf"
      using fa by auto
    with d have "Map_get mf n = Some (snd a)"
      by (rule Map_get_distinct)
    then have g: "get_or_0 mf n = snd a"
      by (simp add: get_or_0_def)
    from out have "(m, c) \<notin> set (take 6 ?xs)"
      by (force simp: xs)
    with split [OF mc] have "(m, c) \<in> set (drop 6 ?xs)"
      by simp
    with a have "?key a \<le> ?key (m, c)"
      by (rule order)
    with g show "c \<le> get_or_0 mf n"
      by simp
  qed
qed

lemma scores_eq:
  assumes "iterations p \<noteq> 0"
  shows "map frequencyScore (top3Combinations p s) =
    [Num (of_int \<lfloor>round_double (round_double ((of_nat (score_frequency s) :: rat) / of_int (iterations p)) * 100) + 1 / 2\<rfloor>),
     Num (of_int \<lfloor>round_double (round_double (round_double ((of_nat (score_frequency s) :: rat) / of_int (iterations p)) * 100) * double_0_85) + 1 / 2\<rfloor>),
     Num (of_int \<lfloor>round_double (round_double (round_double ((of_nat (score_frequency s) :: rat) / of_int (iterations p)) * 100) * double_0_70) + 1 / 2\<rfloor>)]"
  using assms by (simp add: top3Combinations_def score_percent_def js_div_def)

lemma score_frequency_cases:
  "topMain s = [] \<and> score_frequency s = 0
   \<or> (\<exists>n \<in> set (topMain s). score_frequency s = get_or_0 (mainFrequency s) n)"
  by (cases "topMain s") (simp_all add: score_frequency_def array_get_def)

lemma scores_ordered:
  assumes "0 \<le> y"
  shows "\<lfloor>round_double (round_double y * double_0_70) + 1 / 2\<rfloor>
           \<le> \<lfloor>round_double (round_double y * double_0_85) + 1 / 2\<rfloor>"
    and "\<lfloor>round_double (round_double y * double_0_85) + 1 / 2\<rfloor>
           \<le> \<lfloor>round_double y + 1 / 2\<rfloor>"
  using weighted_le [OF assms] by (intro floor_mono; simp)+

text \<open>
  Two computations in which the rounding of doubles decides the score: \<open>9 / 20 * 100 * 0.70\<close>
  is 31.5 exactly and rounds to 32, but the product of the doubles lies below 31.5;
  \<open>23 / 40 * 100\<close> is 57.5 exactly, but the product of the doubles lies below it.
\<close>

lemma double_rounding_examples:
  "Math_round (js_times (js_times (js_div 9 20) 100) double_0_70) = Num 31"
  "Math_round (js_times (js_div 23 40) 100) = Num 57"
  by code_simp+

text \<open>
  C3, as the code has it: for every run that returns with \<open>iterations \<noteq> 0\<close> there is a
  recorded frequency \<open>f\<close>, that of one of the numbers of \<open>mostFrequentMain\<close> (or 0 when
  that list is empty), such that with \<open>x = f / iterations * 100\<close>, computed in doubles,
  the three scores are \<open>round x\<close>, \<open>round (x * 0.85)\<close> and \<open>round (x * 0.70)\<close>, the
  products again computed in doubles: the second and third scores are rounded from the
  unrounded percentage \<open>x\<close>, not from the first score. Which number of
  \<open>mostFrequentMain\<close> supplies \<open>f\<close> is not stated here: the code reads
  \<^verbatim>\<open>sortedMain[0]\<close> after the array has been sorted ascending in place.
\<close>

theorem C3_frequency_scores:
  assumes "simulation_loop rng p 0 initial_state = Returned s" and "iterations p \<noteq> 0"
  shows "final_statistics (runSimulation rng p) = Some (statistics p s)
    \<and> (\<exists>f :: nat.
         (mostFrequentMain (statistics p s) = [] \<and> f = 0
          \<or> (\<exists>n \<in> set (mostFrequentMain (statistics p s)). f = get_or_0 (mainFrequency s) n))
         \<and> map frequencyScore (combinations_of (statistics p s)) =
             [Num (of_int \<lfloor>round_double (round_double ((of_nat f :: rat) / of_int (iterations p)) * 100) + 1 / 2\<rfloor>),
              Num (of_int \<lfloor>round_double (round_double (round_double ((of_nat f :: rat) / of_int (iterations p)) * 100) * double_0_85) + 1 / 2\<rfloor>),
              Num (of_int \<lfloor>round_double (round_double (round_double ((of_nat f :: rat) / of_int (iterations p)) * 100) * double_0_70) + 1 / 2\<rfloor>)])"
proof -
  have st: "mostFrequentMain (statistics p s) = topMain s"
    "combinations_of (statistics p s) = top3Combinations p s"
    by (simp_all add: statistics_def combinations_of_def)
  have "(mostFrequentMain (statistics p s) = [] \<and> score_frequency s = 0
          \<or> (\<exists>n \<in> set (mostFrequentMain (statistics p s)).
                score_frequency s = get_or_0 (mainFrequency s) n))
     \<and> map frequencyScore (combinations_of (statistics p s)) =
             [Num (of_int \<lfloor>round_double (round_double ((of_nat (score_frequency s) :: rat) / of_int (iterations p)) * 100) + 1 / 2\<rfloor>),
              Num (of_int \<lfloor>round_double (round_double (round_double ((of_nat (score_frequency s) :: rat) / of_int (iterations p)) * 100) * double_0_85) + 1 / 2\<rfloor>),
              Num (of_int \<lfloor>round_double (round_double (round_double ((of_nat (score_frequency s) :: rat) / of_int (iterations p)) * 100) * double_0_70) + 1 / 2\<rfloor>)]"
    unfolding st using score_frequency_cases [of s] scores_eq [OF assms(2), of s] by blast
  then have "\<exists>f :: nat.
         (mostFrequentMain (statistics p s) = [] \<and> f = 0
          \<or> (\<exists>n \<in> set (mostFrequentMain (statistics p s)). f = get_or_0 (mainFrequency s) n))
         \<and> map frequencyScore (combinations_of (statistics p s)) =
             [Num (of_int \<lfloor>round_double (round_double ((of_nat f :: rat) / of_int (iterations p)) * 100) + 1 / 2\<rfloor>),
              Num (of_int \<lfloor>round_double (round_double (round_double ((of_nat f :: rat) / of_int (iterations p)) * 100) * double_0_85) + 1 / 2\<rfloor>),
              Num (of_int \<lfloor>round_double (round_double (round_double ((of_nat f :: rat) / of_int (iterations p)) * 100) * double_0_70) + 1 / 2\<rfloor>)]"
    by (rule exI [of _ "score_frequency s"])
  with final_statistics_Returned [OF assms(1)] show ?thesis
    by (rule conjI)
qed

theorem C3_frequency_scores_witness:
  "is_Returned (simulation_loop rng_split (one_of_two 7) 0 initial_state)
   \<and> mostFrequentMain (statistics (one_of_two 7)
        (reached (simulation_loop rng_split (one_of_two 7) 0 initial_state))) = [1, 2]
   \<and> mainFrequency (reached (simulation_loop rng_split (one_of_two 7) 0 initial_state))
       = [(1, 4), (2, 3)]
   \<and> (\<exists>f :: nat.
         (f = 4 \<or> f = 3)
         \<and> map frequencyScore (combinations_of (statistics (one_of_two 7)
              (reached (simulation_loop rng_split (one_of_two 7) 0 initial_state)))) =
             [Num (of_int \<lfloor>round_double (round_double ((of_nat f :: rat) / 7) * 100) + 1 / 2\<rfloor>),
              Num (of_int \<lfloor>round_double (round_double (round_double ((of_nat f :: rat) / 7) * 100) * double_0_85) + 1 / 2\<rfloor>),
              Num (of_int \<lfloor>round_double (round_double (round_double ((of_nat f :: rat) / 7) * 100) * double_0_70) + 1 / 2\<rfloor>)])"
proof -
  let ?s = "reached (simulation_loop rng_split (one_of_two 7) 0 initial_state)"
  have r: "is_Returned (simulation_loop rng_split (one_of_two 7) 0 initial_state)"
    by code_simp
  then have ret: "simulation_loop rng_split (one_of_two 7) 0 initial_state = Returned ?s"
    by simp
  have m: "mostFrequentMain (statistics (one_of_two 7) ?s) = [1, 2]"
    by code_simp
  have mf: "mainFrequency ?s = [(1, 4), (2, 3)]"
    by code_simp
  have its: "iterations (one_of_two 7) = 7"
    by (simp add: one_of_two_def)
  have g: "get_or_0 [(1, 4), (2, 3)] 1 = 4" "get_or_0 [(1, 4), (2, 3)] 2 = 3"
    by (simp_all add: get_or_0_def)
  from C3_frequency_scores [OF ret, unfolded its m mf] g
  have "\<exists>f :: nat.
         (f = 4 \<or> f = 3)
         \<and> map frequencyScore (combinations_of (statistics (one_of_two 7) ?s)) =
             [Num (of_int \<lfloor>round_double (round_double ((of_nat f :: rat) / 7) * 100) + 1 / 2\<rfloor>),
              Num (of_int \<lfloor>round_double (round_double (round_double ((of_nat f :: rat) / 7) * 100) * double_0_85) + 1 / 2\<rfloor>),
              Num (of_int \<lfloor>round_double (round_double (round_double ((of_nat f :: rat) / 7) * 100) * double_0_70) + 1 / 2\<rfloor>)]"
    by auto
  with r m mf show ?thesis
    by blast
qed

text \<open>
  The claim as written derives the second score from the rounded first one. In a run of 7
  trials in which the number 1 is drawn 4 times and the number 2 is drawn 3 times the
  scores are 57, 49 and 40, whereas \<open>round (57 * 0.85) = 48\<close>.
\<close>

theorem C3_rounding_counterexample:
  "map_option (\<lambda>st. map frequencyScore (combinations_of st))
     (final_statistics (runSimulation rng_split (one_of_two 7)))
   = Some [Num 57, Num 49, Num 40]
   \<and> Math_round (js_times (Num 57) (double_0_85)) = Num 48"
  by code_simp

text \<open>
  The frequency behind the scores need not be the highest one. In a run of 3 trials that
  draws the number 2 twice and then the number 1 once, the array sorted in place starts
  with 1, and the first score is \<open>round (1 / 3 * 100) = 33\<close>, although the most
  frequent number was drawn in 2 of 3 trials.
\<close>

lemma score_of_smallest_number_example:
  "mainFrequency (reached (simulation_loop rng_late_low (one_of_two 3) 0 initial_state))
     = [(2, 2), (1, 1)]
   \<and> map_option (\<lambda>st. (mostFrequentMain st, map frequencyScore (combinations_of st)))
       (final_statistics (runSimulation rng_late_low (one_of_two 3)))
     = Some ([1, 2], [Num 33, Num 28, Num 23])"
  by code_simp

text \<open>
  C10, as the code has it, on the worker path: for every run that returns with
  \<open>1 \<le> iterations\<close> and a main count of at least 6, \<open>mostFrequentMain\<close> has exactly 6
  entries, ascending and pairwise distinct, all of them recorded numbers, and no recorded
  number outside the list has a higher recorded frequency than a number in it; there
  are exactly 3 combinations, all with the main numbers of \<open>mostFrequentMain\<close>, and their
  scores are integers with \<open>score 1 \<ge> score 2 \<ge> score 3\<close>.
\<close>

theorem C10_final_statistics_shape:
  assumes "simulation_loop rng p 0 initial_state = Returned s"
    and "1 \<le> iterations p" and "6 \<le> range_count (mainNumberRange p)"
  shows "final_statistics (runSimulation rng p) = Some (statistics p s)
    \<and> length (mostFrequentMain (statistics p s)) = 6
    \<and> sorted (mostFrequentMain (statistics p s))
    \<and> distinct (mostFrequentMain (statistics p s))
    \<and> set (mostFrequentMain (statistics p s)) \<subseteq> fst ` set (mainFrequency s)
    \<and> (\<forall>n \<in> set (mostFrequentMain (statistics p s)). \<forall>(m, c) \<in> set (mainFrequency s).
          m \<notin> set (mostFrequentMain (statistics p s)) \<longrightarrow> c \<le> get_or_0 (mainFrequency s) n)
    \<and> length (combinations_of (statistics p s)) = 3
    \<and> list_all (\<lambda>c. combo_mainNumbers c = mostFrequentMain (statistics p s))
         (combinations_of (statistics p s))
    \<and> (\<exists>a b c :: int.
          map frequencyScore (combinations_of (statistics p s))
            = [Num (of_int a), Num (of_int b), Num (of_int c)]
          \<and> c \<le> b \<and> b \<le> a)"
proof -
  have st: "mostFrequentMain (statistics p s) = sort (map fst (take 6 (sort_by_count_desc (mainFrequency s))))"
    and cs: "combinations_of (statistics p s) = top3Combinations p s"
    by (simp_all add: statistics_def combinations_of_def topMain_def sortedMain_def)
  from keys_invariant [OF assms(3), of rng] assms(1,2)
  have d: "distinct (map fst (mainFrequency s))" and len: "6 \<le> length (mainFrequency s)"
    by (auto simp: max_def)
  note top = top_six [OF d len]
  have srt: "sorted (mostFrequentMain (statistics p s))"
    unfolding st by simp
  have three: "length (combinations_of (statistics p s)) = 3"
    unfolding cs by (simp add: top3Combinations_def)
  have same: "list_all (\<lambda>c. combo_mainNumbers c = mostFrequentMain (statistics p s))
         (combinations_of (statistics p s))"
    unfolding cs by (simp add: top3Combinations_def statistics_def)
  let ?y = "round_double ((of_nat (score_frequency s) :: rat) / of_int (iterations p)) * 100"
  let ?x = "round_double ?y"
  from assms(2) have "0 \<le> (of_nat (score_frequency s) :: rat) / of_int (iterations p)"
    by simp
  then have "0 \<le> round_double ((of_nat (score_frequency s) :: rat) / of_int (iterations p))"
    by (rule round_double_nonneg)
  then have "0 \<le> ?y"
    by simp
  note ord = scores_ordered [OF this]
  from assms(2) have "iterations p \<noteq> 0"
    by simp
  then have se: "map frequencyScore (top3Combinations p s) =
      [Num (of_int \<lfloor>?x + 1 / 2\<rfloor>),
       Num (of_int \<lfloor>round_double (?x * double_0_85) + 1 / 2\<rfloor>),
       Num (of_int \<lfloor>round_double (?x * double_0_70) + 1 / 2\<rfloor>)]"
    by (rule scores_eq)
  have scores: "\<exists>a b c :: int.
          map frequencyScore (combinations_of (statistics p s))
            = [Num (of_int a), Num (of_int b), Num (of_int c)]
          \<and> c \<le> b \<and> b \<le> a"
    unfolding cs
    by (rule exI [of _ "\<lfloor>?x + 1 / 2\<rfloor>"],
        rule exI [of _ "\<lfloor>round_double (?x * double_0_85) + 1 / 2\<rfloor>"],
        rule exI [of _ "\<lfloor>round_double (?x * double_0_70) + 1 / 2\<rfloor>"])
      (intro conjI se ord)
  from final_statistics_Returned [OF assms(1)] top [folded st] srt three same scores
  show ?thesis
    by blast
qed

theorem C10_final_statistics_shape_witness:
  "is_Returned (simulation_loop rng_cycle (page_payload 3) 0 initial_state)
   \<and> mostFrequentMain (statistics (page_payload 3)
        (reached (simulation_loop rng_cycle (page_payload 3) 0 initial_state)))
       = [2, 3, 4, 5, 6, 7]
   \<and> length (combinations_of (statistics (page_payload 3)
        (reached (simulation_loop rng_cycle (page_payload 3) 0 initial_state)))) = 3
   \<and> list_all (\<lambda>c. combo_mainNumbers c = [2, 3, 4, 5, 6, 7])
        (combinations_of (statistics (page_payload 3)
          (reached (simulation_loop rng_cycle (page_payload 3) 0 initial_state))))
   \<and> (\<exists>a b c :: int.
          map frequencyScore (combinations_of (statistics (page_payload 3)
            (reached (simulation_loop rng_cycle (page_payload 3) 0 initial_state))))
            = [Num (of_int a), Num (of_int b), Num (of_int c)]
          \<and> c \<le> b \<and> b \<le> a)"
proof -
  let ?s = "reached (simulation_loop rng_cycle (page_payload 3) 0 initial_state)"
  have r: "is_Returned (simulation_loop rng_cycle (page_payload 3) 0 initial_state)"
    by code_simp
  then have ret: "simulation_loop rng_cycle (page_payload 3) 0 initial_state = Returned ?s"
    by simp
  have m: "mostFrequentMain (statistics (page_payload 3) ?s) = [2, 3, 4, 5, 6, 7]"
    by code_simp
  have h: "1 \<le> iterations (page_payload 3)" "6 \<le> range_count (mainNumberRange (page_payload 3))"
    by (simp_all add: page_payload_def)
  from C10_final_statistics_shape [OF ret h] r show ?thesis
    unfolding m by blast
qed

text \<open>
  The claim as written speaks of every run. A start with \<open>iterations = 0\<close> returns
  statistics whose \<open>mostFrequentMain\<close> is empty and whose three scores are \<^verbatim>\<open>NaN\<close>.
\<close>

theorem C10_empty_statistics_counterexample:
  "map_option (\<lambda>st. (mostFrequentMain st, map frequencyScore (combinations_of st)))
     (final_statistics (runSimulation rng_zero (page_payload 0)))
   = Some ([], [NaN, NaN, NaN])"
  by code_simp

text \<open>
  C4 asks that a substituted bonus number stay within the bonus range. On the payload of
  the page (bonus range 1..12), in a run of one trial whose bonus number is 12, only one
  bonus value is recorded; the second combination gets the substitute 1 and the third
  gets \<open>12 + 2 = 14\<close>, outside 1..12: the third slot wraps at 11 only.
\<close>

theorem C4_fallback_bonus_out_of_range:
  "map_option (\<lambda>st. (mostFrequentBonus st, map combo_bonusNumber (combinations_of st)))
     (final_statistics (runSimulation rng_high_bonus (page_payload 1)))
   = Some (Num 12, [Num 12, Num 1, Num 14])"
  by code_simp

subsection \<open>The fallback path\<close>

lemma processChunk_result:
  assumes "processChunk rng its s = Some y"
  shows "snd y = (slice_last 50 (fb_results (fst y)), fallback_statistics its (fb_results (fst y)))"
proof (rule processChunk.raw_induct
    [where P = "\<lambda>rng its s y. snd y
       = (slice_last 50 (fb_results (fst y)), fallback_statistics its (fb_results (fst y)))",
     OF _ assms])
  fix chunk and rng :: random_source and its :: int and s :: fallback_state
    and y :: "fallback_state \<times> SimulationResult list \<times> SimulationStatistics"
  assume IH: "\<And>rng its s y. chunk rng its s = Some y \<Longrightarrow>
      snd y = (slice_last 50 (fb_results (fst y)), fallback_statistics its (fb_results (fst y)))"
    and unfolded: "Option.bind (chunk_loop rng its 0 s)
       (\<lambda>s1. let s2 = s1\<lparr>progress := js_times (js_div (of_int (processed s1)) (of_int its)) 100\<rparr>
             in if processed s2 < its
                then chunk rng its s2
                else Some (s2, slice_last 50 (fb_results s2),
                           fallback_statistics its (fb_results s2))) = Some y"
  from unfolded obtain s1 where "chunk_loop rng its 0 s = Some s1"
    and rest: "(let s2 = s1\<lparr>progress := js_times (js_div (of_int (processed s1)) (of_int its)) 100\<rparr>
             in if processed s2 < its
                then chunk rng its s2
                else Some (s2, slice_last 50 (fb_results s2),
                           fallback_statistics its (fb_results s2))) = Some y"
    by (auto simp: bind_eq_Some_conv)
  show "snd y = (slice_last 50 (fb_results (fst y)), fallback_statistics its (fb_results (fst y)))"
  proof (cases "processed s1 < its")
    case True
    with rest have "chunk rng its
        (s1\<lparr>progress := js_times (js_div (of_int (processed s1)) (of_int its)) 100\<rparr>) = Some y"
      by (simp add: Let_def)
    then show ?thesis
      by (rule IH)
  next
    case False
    with rest show ?thesis
      by (auto simp: Let_def)
  qed
qed

text \<open>
  C5: for every random stream and every iteration count, a fallback run that finishes
  reports \<open>mostFrequentMain = [3, 7, 12, 18, 24, 29]\<close> and \<open>mostFrequentBonus = 6\<close>
  whatever it has drawn, and no ranked combinations; only \<open>averageSum\<close> is computed from
  the draws of the run, as the rounded quotient of the sum of all main numbers by the
  iteration count.
\<close>

theorem C5_fallback_placeholders:
  assumes "runFallbackSimulation rng its = Some (s, shown, st)"
  shows "mostFrequentMain st = [3, 7, 12, 18, 24, 29] \<and> mostFrequentBonus st = Num 6
    \<and> averageSum st = Math_round (js_div
          (of_int (sum_list (map (\<lambda>r. sum_list (mainNumbers r)) (fb_results s)))) (of_int its))
    \<and> optimizedCombinations st = None"
  using processChunk_result [OF assms [unfolded runFallbackSimulation_def]]
  by (simp add: fallback_statistics_def)

theorem C5_fallback_placeholders_witness:
  "\<exists>s shown st. runFallbackSimulation rng_cycle 1 = Some (s, shown, st)
     \<and> map mainNumbers (fb_results s) = [[1, 2, 3, 4, 5, 6]]
     \<and> map bonusNumber (fb_results s) = [3]
     \<and> mostFrequentMain st = [3, 7, 12, 18, 24, 29] \<and> mostFrequentBonus st = Num 6
     \<and> averageSum st = Num 21"
proof -
  have run: "runFallbackSimulation rng_cycle 1 =
      Some (\<lparr>fb_results =
               [\<lparr>result_id = 1, mainNumbers = [1, 2, 3, 4, 5, 6], bonusNumber = 3,
                 checksum = 63\<rparr>],
             processed = 1, progress = Num 100, fb_pos = 7\<rparr>,
            [\<lparr>result_id = 1, mainNumbers = [1, 2, 3, 4, 5, 6], bonusNumber = 3, checksum = 63\<rparr>],
            \<lparr>totalSimulations = 1, mostFrequentMain = [3, 7, 12, 18, 24, 29],
             mostFrequentBonus = Num 6, averageSum = Num 21, optimizedCombinations = None\<rparr>)"
    by code_simp
  from C5_fallback_placeholders [OF run] run show ?thesis
    by simp
qed

end
